theory Spec2Isabelle
  imports Complex_Main "HOL-Library.Log_Nat" "HOL-Library.Word"
begin

section \<open>JavaScript numbers\<close>

text \<open>
  The arithmetic of \<^verbatim>\<open>compressImage\<close> runs on JavaScript Numbers, that is IEEE-754
  binary64 values.  A finite Number is a rational, so Numbers are modelled as \<^typ>\<open>rat\<close>
  and every division and multiplication of the source rounds its exact result to the
  nearest binary64 value, ties to the even significand (\<open>fl\<close>).  Overflow to Infinity
  and the subnormal range are not modelled: both are out of reach for quotients and
  products of pixel counts.  Integers below \<open>2^53\<close> are Numbers as they are, so
  comparisons, \<^verbatim>\<open>Math.min\<close> and the integer results of \<^verbatim>\<open>Math.round\<close> are exact.
\<close>

definition rne :: "rat \<Rightarrow> int" where
  \<comment> \<open>round to the nearest integer, a tie to the even one\<close>
  "rne y = (let f = \<lfloor>y\<rfloor>; d = y - of_int f in
     if d < 1/2 then f else if 1/2 < d then f + 1 else if even f then f else f + 1)"

definition fexp :: "rat \<Rightarrow> int" where
  \<comment> \<open>the binary exponent of a non-zero number: \<open>2^e \<le> |x| < 2^(e+1)\<close>\<close>
  "fexp x = (let p = fst (quotient_of \<bar>x\<bar>); q = snd (quotient_of \<bar>x\<bar>);
                 e = bitlen p - bitlen q
             in if 2 powi e \<le> \<bar>x\<bar> then e else e - 1)"

definition fl :: "rat \<Rightarrow> rat" where
  \<comment> \<open>round to binary64: 53 significant bits, nearest, ties to even\<close>
  "fl x = (if x = 0 then 0
           else let s = 2 powi (fexp x - 52) in of_int (rne (x / s)) * s)"

definition fdiv :: "rat \<Rightarrow> rat \<Rightarrow> rat" where
  \<comment> \<open>the source's \<^verbatim>\<open>a / b\<close> for finite operands and \<open>b \<noteq> 0\<close>\<close>
  "fdiv a b = fl (a / b)"

definition fmul :: "rat \<Rightarrow> rat \<Rightarrow> rat" where
  \<comment> \<open>the source's \<^verbatim>\<open>a * b\<close>\<close>
  "fmul a b = fl (a * b)"

definition Math_round :: "rat \<Rightarrow> int" where
  \<comment> \<open>\<^verbatim>\<open>Math.round\<close>: the nearest integer, a tie going up\<close>
  "Math_round x = \<lfloor>x + 1/2\<rfloor>"


section \<open>Compression options and the target size\<close>

text \<open>
  The options object of \<^verbatim>\<open>compressImage\<close>.  A property may be absent
  (\<open>None\<close>); the destructuring of the source then takes its default.  The settings
  panel also stores \<^verbatim>\<open>preserveDimensions\<close> in the same object.
\<close>

record options =
  maxWidth :: "int option"
  maxHeight :: "int option"
  quality :: "rat option"
  format :: "string option"
  maintainAspectRatio :: "bool option"
  preserveDimensions :: "bool option"

text \<open>The presets \<^verbatim>\<open>COMPRESSION_PRESETS\<close> of the source.\<close>

definition preset_low :: options where
  "preset_low = \<lparr>maxWidth = Some 400, maxHeight = Some 400, quality = Some (6/10),
     format = Some ''image/jpeg'', maintainAspectRatio = Some True, preserveDimensions = None\<rparr>"

definition preset_medium :: options where
  "preset_medium = \<lparr>maxWidth = Some 800, maxHeight = Some 800, quality = Some (7/10),
     format = Some ''image/jpeg'', maintainAspectRatio = Some True, preserveDimensions = None\<rparr>"

definition preset_high :: options where
  "preset_high = \<lparr>maxWidth = Some 1200, maxHeight = Some 1200, quality = Some (85/100),
     format = Some ''image/jpeg'', maintainAspectRatio = Some True, preserveDimensions = None\<rparr>"

definition preset_webp :: options where
  "preset_webp = \<lparr>maxWidth = Some 1000, maxHeight = Some 1000, quality = Some (8/10),
     format = Some ''image/webp'', maintainAspectRatio = Some True, preserveDimensions = None\<rparr>"

definition preset_png :: options where
  "preset_png = \<lparr>maxWidth = Some 1200, maxHeight = Some 1200, quality = Some (9/10),
     format = Some ''image/png'', maintainAspectRatio = Some True, preserveDimensions = None\<rparr>"


definition opt_maxWidth :: "options \<Rightarrow> int" where
  "opt_maxWidth opts = (case maxWidth opts of None \<Rightarrow> 800 | Some v \<Rightarrow> v)"

definition opt_maxHeight :: "options \<Rightarrow> int" where
  "opt_maxHeight opts = (case maxHeight opts of None \<Rightarrow> 800 | Some v \<Rightarrow> v)"

definition opt_quality :: "options \<Rightarrow> rat" where
  "opt_quality opts = (case quality opts of None \<Rightarrow> 8/10 | Some v \<Rightarrow> v)"

definition opt_format :: "options \<Rightarrow> string" where
  "opt_format opts = (case format opts of None \<Rightarrow> ''image/jpeg'' | Some v \<Rightarrow> v)"

definition opt_maintainAspectRatio :: "options \<Rightarrow> bool" where
  "opt_maintainAspectRatio opts = (case maintainAspectRatio opts of None \<Rightarrow> True | Some v \<Rightarrow> v)"

text \<open>
  The block ``Calculate new dimensions'' of \<^verbatim>\<open>compressImage\<close>: from the options and
  the size of the loaded image to the size of the canvas, \<open>(newWidth, newHeight)\<close>.
  The image sizes are the integers \<^verbatim>\<open>img.width\<close> and \<^verbatim>\<open>img.height\<close>, which are
  not negative.  For a height of zero the source's \<^verbatim>\<open>aspectRatio\<close> is Infinity (NaN
  when the width is zero as well, and then it is not used), and a width divided by
  Infinity is 0; a division by zero is 0 in HOL, so the definition returns the
  source's \<open>(newWidth, 0)\<close> there as well.  The statements below that reach the
  arithmetic assume positive sizes.
\<close>

definition plan_dimensions :: "options \<Rightarrow> int \<Rightarrow> int \<Rightarrow> int \<times> int" where
  "plan_dimensions opts originalWidth originalHeight =
    (let maxW = opt_maxWidth opts; maxH = opt_maxHeight opts in
     if maxW > 0 \<and> maxH > 0 \<and> maxW < 9999 \<and> maxH < 9999 then
       if opt_maintainAspectRatio opts then
         let aspectRatio = fdiv (of_int originalWidth) (of_int originalHeight) in
         if originalWidth > maxW \<or> originalHeight > maxH then
           if originalWidth > originalHeight then
             let newWidth = min originalWidth maxW;
                 newHeight = Math_round (fdiv (of_int newWidth) aspectRatio)
             in if newHeight > maxH
                then (Math_round (fmul (of_int maxH) aspectRatio), maxH)
                else (newWidth, newHeight)
           else
             let newHeight = min originalHeight maxH;
                 newWidth = Math_round (fmul (of_int newHeight) aspectRatio)
             in if newWidth > maxW
                then (maxW, Math_round (fdiv (of_int maxW) aspectRatio))
                else (newWidth, newHeight)
         else (originalWidth, originalHeight)
       else (min originalWidth maxW, min originalHeight maxH)
     else (originalWidth, originalHeight))"


text \<open>
  The check box ``Preserve Original Dimensions'' of the settings panel.  Its handler
  calls \<^verbatim>\<open>handleCustomOptionChange\<close> three times, for \<^verbatim>\<open>preserveDimensions\<close>,
  \<^verbatim>\<open>maxWidth\<close> and \<^verbatim>\<open>maxHeight\<close>; each call copies the \<^verbatim>\<open>customOptions\<close> of the
  current render, sets one property and hands the copy to \<^verbatim>\<open>onOptionsChange\<close>.  The
  list holds the three objects in the order they are handed over; the application
  stores each in turn, and so keeps the last.
\<close>

definition handleCustomOptionChange_preserve :: "options \<Rightarrow> bool \<Rightarrow> options list" where
  "handleCustomOptionChange_preserve customOptions preserve =
     [customOptions\<lparr>preserveDimensions := Some preserve\<rparr>,
      customOptions\<lparr>maxWidth := Some (if preserve then 9999 else 800)\<rparr>,
      customOptions\<lparr>maxHeight := Some (if preserve then 9999 else 800)\<rparr>]"


section \<open>Compressing one image\<close>

text \<open>
  What \<^verbatim>\<open>compressImage\<close> asks of the browser, taken as parameters: loading the data
  URL into an \<^verbatim>\<open>Image\<close> (\<open>None\<close> when \<^verbatim>\<open>onerror\<close> fires), the size of the
  loaded image, and the canvas: a canvas of the given size, \<^verbatim>\<open>drawImage\<close> of the image
  scaled to it and \<^verbatim>\<open>toDataURL(format)\<close> or \<^verbatim>\<open>toDataURL(format, quality)\<close>
  (the last argument is \<open>None\<close> for the call with one argument; \<open>Inl\<close> carries the
  message of an exception thrown on the way).
\<close>

record 'img browser =
  image_load :: "string \<Rightarrow> 'img option"
  image_width :: "'img \<Rightarrow> int"
  image_height :: "'img \<Rightarrow> int"
  canvas_toDataURL :: "'img \<Rightarrow> int \<Rightarrow> int \<Rightarrow> string \<Rightarrow> rat option \<Rightarrow> string + string"

text \<open>
  The object \<^verbatim>\<open>compressImage\<close> resolves with.  Its fields \<^verbatim>\<open>format\<close> and
  \<^verbatim>\<open>quality\<close> are \<open>format'\<close> and \<open>quality'\<close> here; \<^verbatim>\<open>compressionRatio\<close>, a
  percentage printed by \<^verbatim>\<open>toFixed(1)\<close>, is left out.
\<close>

record compress_result =
  base64 :: string
  width :: int
  height :: int
  format' :: string
  quality' :: rat
  originalSize :: int
  compressedSize :: int
  originalWidth :: int
  originalHeight :: int

fun js_split :: "char \<Rightarrow> string \<Rightarrow> string list" where
  \<comment> \<open>\<^verbatim>\<open>s.split(c)\<close> for a separator of one character\<close>
  "js_split c [] = [[]]"
| "js_split c (x # xs) =
     (if x = c then [] # js_split c xs
      else (case js_split c xs of [] \<Rightarrow> [[x]] | p # ps \<Rightarrow> (x # p) # ps))"

definition js_index :: "'a list \<Rightarrow> nat \<Rightarrow> 'a option" where
  \<comment> \<open>\<^verbatim>\<open>xs[i]\<close>: \<^verbatim>\<open>undefined\<close> (\<open>None\<close>) out of range\<close>
  "js_index xs i = (if i < length xs then Some (xs ! i) else None)"

definition getBase64Size :: "string \<Rightarrow> int" where
  "getBase64Size b64 =
     (let base64String =
            (if CHR '','' \<in> set b64
             then (case js_index (js_split CHR '','' b64) 1 of None \<Rightarrow> [] | Some s \<Rightarrow> s)
             else b64)
      in Math_round (fdiv (fmul (of_nat (length base64String)) 3) 4))"

definition compressImage :: "'img browser \<Rightarrow> string \<Rightarrow> options \<Rightarrow> string + compress_result" where
  "compressImage b imageDataUrl opts =
     (case image_load b imageDataUrl of
        None \<Rightarrow> Inl ''Failed to load image''
      | Some img \<Rightarrow>
          (let origW = image_width b img;
               origH = image_height b img;
               newWidth = fst (plan_dimensions opts origW origH);
               newHeight = snd (plan_dimensions opts origW origH);
               fmt = opt_format opts;
               q = opt_quality opts;
               encoded =
                 (if fmt = ''image/png''
                  then canvas_toDataURL b img newWidth newHeight fmt None
                  else canvas_toDataURL b img newWidth newHeight fmt (Some q))
           in case encoded of
                Inl msg \<Rightarrow> Inl (''Compression error: '' @ msg)
              | Inr compressedDataUrl \<Rightarrow>
                  Inr \<lparr>base64 = compressedDataUrl,
                       width = newWidth,
                       height = newHeight,
                       format' = fmt,
                       quality' = q,
                       originalSize = getBase64Size imageDataUrl,
                       compressedSize = getBase64Size compressedDataUrl,
                       originalWidth = origW,
                       originalHeight = origH\<rparr>))"


section \<open>The batch\<close>

text \<open>
  An element of the list given to \<^verbatim>\<open>processBatchImages\<close>: the properties
  \<^verbatim>\<open>file\<close> (here \<open>file'\<close>), \<^verbatim>\<open>dataUrl\<close>, \<^verbatim>\<open>name\<close> and \<^verbatim>\<open>size\<close> (here \<open>size'\<close>), each of
  which may be absent.
\<close>

record 'f image =
  file' :: "'f option"
  dataUrl :: "string option"
  name :: "string option"
  size' :: "int option"

text \<open>The argument \<^verbatim>\<open>image.file || image.dataUrl\<close> of \<^verbatim>\<open>compressImage\<close>.\<close>

datatype 'f compress_input = InputFile 'f | InputUrl "string option"

definition file_or_dataUrl :: "'f image \<Rightarrow> 'f compress_input" where
  "file_or_dataUrl img = (case file' img of Some f \<Rightarrow> InputFile f | None \<Rightarrow> InputUrl (dataUrl img))"

text \<open>
  An element of the list \<^verbatim>\<open>processBatchImages\<close> returns.  The fields \<^verbatim>\<open>dataUrl\<close>
  and \<^verbatim>\<open>originalSize\<close> are \<open>dataUrl'\<close> and \<open>originalSize'\<close> here; the failure
  object of the source has no \<^verbatim>\<open>originalSize\<close>.
\<close>

record batch_result =
  originalName :: "string option"
  fileName :: "string option"
  dataUrl' :: "string option"
  originalSize' :: "int option"
  stats :: "compress_result option"
  success :: bool
  error :: "string option"

text \<open>
  \<^verbatim>\<open>compressImage\<close> is imported by the batch module and awaited.  It is taken to
  settle: it resolves with a result (\<open>Inr\<close>) or rejects with an error whose message
  is kept (\<open>Inl\<close>).  The progress callback returns (\<open>None\<close>) or throws an error with a
  message.
\<close>

type_synonym 'f compressor = "'f compress_input \<Rightarrow> options \<Rightarrow> string + compress_result"

type_synonym progress_callback = "nat \<Rightarrow> nat \<Rightarrow> string option"

text \<open>
  What the loop does, in the order it does it: the call \<^verbatim>\<open>onProgress(current, total)\<close>,
  the call of \<^verbatim>\<open>compressImage\<close> for the image at an index, and the
  \<^verbatim>\<open>results.push\<close> that accounts for the image at an index.
\<close>

datatype event = is_Progress: Progress (current: nat) (total_of: nat) | Compress nat | Push nat

record batch_state =
  results :: "batch_result list"
  trace :: "event list"

definition digit :: "nat \<Rightarrow> char" where
  "digit d = char_of (of_char CHR ''0'' + d)"

fun decimal :: "nat \<Rightarrow> string" where
  \<comment> \<open>a number in a template literal\<close>
  "decimal n = (if 10 \<le> n then decimal (n div 10) @ [digit (n mod 10)] else [digit n])"

declare decimal.simps [simp del]

fun remove_extension :: "string \<Rightarrow> string" where
  \<comment> \<open>\<^verbatim>\<open>s.replace(/\.[^/.]+$/, '')\<close>: the leftmost dot followed, up to the end, by one
      or more characters other than a slash and a dot\<close>
  "remove_extension [] = []"
| "remove_extension (c # cs) =
     (if c = CHR ''.'' \<and> cs \<noteq> [] \<and> list_all (\<lambda>d. d \<noteq> CHR ''/'' \<and> d \<noteq> CHR ''.'') cs
      then [] else c # remove_extension cs)"

definition extension_of :: "options \<Rightarrow> string" where
  "extension_of opts =
     (let fmt = (case format opts of None \<Rightarrow> ''image/jpeg''
                 | Some f \<Rightarrow> if f = [] then ''image/jpeg'' else f)
      in if fmt = ''image/png'' then ''png'' else if fmt = ''image/webp'' then ''webp'' else ''jpg'')"

definition compressedFileName :: "options \<Rightarrow> nat \<Rightarrow> string option \<Rightarrow> string" where
  "compressedFileName opts i nm =
     (let generated = ''image_'' @ decimal (i + 1);
          original = (case nm of None \<Rightarrow> generated | Some n \<Rightarrow> if n = [] then generated else n)
      in remove_extension original @ ''.'' @ extension_of opts)"

definition success_result :: "options \<Rightarrow> nat \<Rightarrow> 'f image \<Rightarrow> compress_result \<Rightarrow> batch_result" where
  "success_result opts i img result =
     \<lparr>originalName = name img,
      fileName = Some (compressedFileName opts i (name img)),
      dataUrl' = Some (base64 result),
      originalSize' = Some (case size' img of None \<Rightarrow> originalSize result
                            | Some s \<Rightarrow> if s = 0 then originalSize result else s),
      stats = Some result,
      success = True,
      error = None\<rparr>"

definition failure_result :: "'f image \<Rightarrow> string \<Rightarrow> batch_result" where
  "failure_result img msg =
     \<lparr>originalName = name img,
      fileName = None,
      dataUrl' = None,
      originalSize' = None,
      stats = None,
      success = False,
      error = Some msg\<rparr>"

definition attempt ::
  "'f compressor \<Rightarrow> options \<Rightarrow> progress_callback option \<Rightarrow> nat \<Rightarrow> nat \<Rightarrow> 'f image
     \<Rightarrow> batch_result \<times> event list" where
  \<comment> \<open>the \<^verbatim>\<open>try\<close> and \<^verbatim>\<open>catch\<close> of one turn, for the image at index \<open>i\<close> out of
      \<open>len\<close>: the object that is pushed, and the calls made before the push\<close>
  "attempt compress opts onProgress len i img =
     (case onProgress of
        None \<Rightarrow>
          (case compress (file_or_dataUrl img) opts of
             Inl msg \<Rightarrow> (failure_result img msg, [Compress i])
           | Inr result \<Rightarrow> (success_result opts i img result, [Compress i]))
      | Some callback \<Rightarrow>
          (case callback (i + 1) len of
             Some msg \<Rightarrow> (failure_result img msg, [Progress (i + 1) len])
           | None \<Rightarrow>
               (case compress (file_or_dataUrl img) opts of
                  Inl msg \<Rightarrow> (failure_result img msg, [Progress (i + 1) len, Compress i])
                | Inr result \<Rightarrow>
                    (success_result opts i img result, [Progress (i + 1) len, Compress i]))))"

definition process_image ::
  "'f compressor \<Rightarrow> options \<Rightarrow> progress_callback option \<Rightarrow> nat \<Rightarrow> nat \<Rightarrow> 'f image
     \<Rightarrow> batch_state \<Rightarrow> batch_state" where
  \<comment> \<open>one turn of the loop\<close>
  "process_image compress opts onProgress len i img st =
     \<lparr>results = results st @ [fst (attempt compress opts onProgress len i img)],
      trace = trace st @ snd (attempt compress opts onProgress len i img) @ [Push i]\<rparr>"

fun batch_loop ::
  "'f compressor \<Rightarrow> options \<Rightarrow> progress_callback option \<Rightarrow> nat \<Rightarrow> nat \<Rightarrow> 'f image list
     \<Rightarrow> batch_state \<Rightarrow> batch_state" where
  \<comment> \<open>the \<^verbatim>\<open>for\<close> loop from index \<open>i\<close> on; the list holds the images not yet visited\<close>
  "batch_loop compress opts onProgress len i [] st = st"
| "batch_loop compress opts onProgress len i (img # rest) st =
     batch_loop compress opts onProgress len (Suc i) rest
       (process_image compress opts onProgress len i img st)"

definition run_batch ::
  "'f compressor \<Rightarrow> options \<Rightarrow> progress_callback option \<Rightarrow> 'f image list \<Rightarrow> batch_state" where
  "run_batch compress opts onProgress images =
     batch_loop compress opts onProgress (length images) 0 images \<lparr>results = [], trace = []\<rparr>"

definition processBatchImages ::
  "'f compressor \<Rightarrow> options \<Rightarrow> progress_callback option \<Rightarrow> 'f image list \<Rightarrow> batch_result list" where
  "processBatchImages compress opts onProgress images =
     results (run_batch compress opts onProgress images)"


section \<open>The archive\<close>

text \<open>
  \<^verbatim>\<open>atob\<close>, the forgiving base64 decoding of the platform: ASCII whitespace is
  dropped, one or two padding characters are dropped from a length that is a multiple
  of four, a remaining length of one more than a multiple of four or a character
  outside the alphabet is an exception (\<open>None\<close>), and the sextets are joined to bytes.
\<close>

definition b64_whitespace :: "char \<Rightarrow> bool" where
  "b64_whitespace c = (of_char c \<in> {9::int, 10, 12, 13, 32})"

definition b64_value :: "char \<Rightarrow> int option" where
  "b64_value c =
     (let n = of_char c :: int in
      if 65 \<le> n \<and> n \<le> 90 then Some (n - 65)
      else if 97 \<le> n \<and> n \<le> 122 then Some (n - 71)
      else if 48 \<le> n \<and> n \<le> 57 then Some (n + 4)
      else if n = 43 then Some 62
      else if n = 47 then Some 63
      else None)"

definition b64_strip_padding :: "string \<Rightarrow> string" where
  "b64_strip_padding s =
     (if length s mod 4 = 0 \<and> s \<noteq> [] \<and> last s = CHR ''=''
      then (if butlast s \<noteq> [] \<and> last (butlast s) = CHR ''=''
            then butlast (butlast s) else butlast s)
      else s)"

fun b64_bytes :: "int list \<Rightarrow> int list" where
  "b64_bytes (a # b # c # d # rest) =
     (let v = ((a * 64 + b) * 64 + c) * 64 + d
      in v div 65536 # (v div 256) mod 256 # v mod 256 # b64_bytes rest)"
| "b64_bytes [a, b, c] = (let v = ((a * 64 + b) * 64 + c) div 4 in [v div 256, v mod 256])"
| "b64_bytes [a, b] = [(a * 64 + b) div 16]"
| "b64_bytes [a] = []"
| "b64_bytes [] = []"

definition atob :: "string \<Rightarrow> int list option" where
  \<comment> \<open>the character codes of the binary string\<close>
  "atob input =
     (let s = b64_strip_padding (filter (\<lambda>c. \<not> b64_whitespace c) input) in
      if length s mod 4 = 1 then None
      else if list_all (\<lambda>c. b64_value c \<noteq> None) s
           then Some (b64_bytes (map (\<lambda>c. the (b64_value c)) s))
           else None)"

text \<open>
  The archive under construction is the object \<^verbatim>\<open>files\<close> of the JSZip instance (JSZip
  3), a dictionary from names to entries, kept here as the list of its bindings in
  the order in which the keys were created, with distinct keys.  An entry is a
  folder or a file with its bytes; the date and the other attributes of an entry
  are left out, and a name is a key like any other (the object has no prototype
  from version 3.7 on).
\<close>

datatype zip_object = Folder | File "8 word list"

type_synonym zip = "(string \<times> zip_object) list"

definition files_set :: "string \<Rightarrow> zip_object \<Rightarrow> zip \<Rightarrow> zip" where
  \<comment> \<open>the assignment \<^verbatim>\<open>this.files[name] = object\<close>: a key that is there keeps its place\<close>
  "files_set nm obj fs =
     (if nm \<in> fst ` set fs then map (\<lambda>e. if fst e = nm then (nm, obj) else e) fs
      else fs @ [(nm, obj)])"

definition parentFolder :: "string \<Rightarrow> string" where
  \<comment> \<open>one final slash is dropped, then the path is cut before its last slash; the
      empty string when there is no slash behind the first character\<close>
  "parentFolder path =
     (let p = (if path \<noteq> [] \<and> last path = CHR ''/'' then butlast path else path);
          n = length (dropWhile (\<lambda>c. c \<noteq> CHR ''/'') (rev p))
      in if 1 < n then take (n - 1) p else [])"

definition forceTrailingSlash :: "string \<Rightarrow> string" where
  "forceTrailingSlash path = (if path \<noteq> [] \<and> last path = CHR ''/'' then path else path @ ''/'')"

text \<open>
  \<^verbatim>\<open>folderAdd\<close> with the option \<^verbatim>\<open>createFolders\<close> on (the default of the library): a
  folder that is there is left as it is; otherwise its parent folders are added
  first, through \<^verbatim>\<open>fileAdd\<close> for a directory, and then the folder.
\<close>

function folderAdd :: "string \<Rightarrow> zip \<Rightarrow> zip" where
  "folderAdd nm fs =
     (if map_of fs (forceTrailingSlash nm) \<noteq> None then fs
      else files_set (forceTrailingSlash nm) Folder
             (if parentFolder (forceTrailingSlash nm) = [] then fs
              else folderAdd (parentFolder (forceTrailingSlash nm)) fs))"
  by pat_completeness auto
termination
proof (relation "measure (\<lambda>(nm, fs). length nm)")
  show "wf (measure (\<lambda>(nm, fs). length nm))" by simp
next
  fix nm :: string and fs :: zip
  assume nonempty: "parentFolder (forceTrailingSlash nm) \<noteq> []"
  define p where "p = butlast (forceTrailingSlash nm)"
  define n where "n = length (dropWhile (\<lambda>c. c \<noteq> CHR ''/'') (rev p))"
  have "length p \<le> length nm" by (simp add: p_def forceTrailingSlash_def)
  moreover have "n \<le> length p"
    unfolding n_def using length_dropWhile_le[of _ "rev p"] by simp
  moreover have "parentFolder (forceTrailingSlash nm) = (if 1 < n then take (n - 1) p else [])"
    by (simp add: parentFolder_def forceTrailingSlash_def p_def n_def Let_def)
  ultimately have "length (parentFolder (forceTrailingSlash nm)) < length nm"
    using nonempty by (auto split: if_splits)
  then show "((parentFolder (forceTrailingSlash nm), fs), (nm, fs)) \<in> measure (\<lambda>(nm, fs). length nm)"
    by simp
qed

declare folderAdd.simps [simp del]

definition zip_file :: "string \<Rightarrow> 8 word list \<Rightarrow> zip \<Rightarrow> zip" where
  \<comment> \<open>\<^verbatim>\<open>zip.file(name, data)\<close> on the root of the archive, that is \<^verbatim>\<open>fileAdd\<close>: the
      parent folders are created, then the entry is assigned\<close>
  "zip_file nm bytes fs =
     files_set nm (File bytes) (if parentFolder nm = [] then fs else folderAdd (parentFolder nm) fs)"

text \<open>
  \<^verbatim>\<open>generateAsync\<close> writes one entry for each key that \<^verbatim>\<open>forEach\<close> visits: the keys in
  the order of \<^verbatim>\<open>for ... in\<close>, which is the keys that are array indices (canonical
  decimal numbers below \<open>2\<^sup>3\<^sup>2 - 1\<close>) in ascending order, then the other keys in the
  order of their creation; the entry of the empty name is passed over.  The DEFLATE
  encoding is left out: the archive returned is the list of the entries written.
\<close>

definition digit_value :: "char \<Rightarrow> int" where
  "digit_value c = of_char c - 48"

definition array_index :: "string \<Rightarrow> int" where
  "array_index s = foldl (\<lambda>v c. 10 * v + digit_value c) 0 s"

definition is_array_index :: "string \<Rightarrow> bool" where
  "is_array_index s =
     (s \<noteq> [] \<and> list_all (\<lambda>c. 0 \<le> digit_value c \<and> digit_value c \<le> 9) s
      \<and> (s = ''0'' \<or> hd s \<noteq> CHR ''0'')
      \<and> array_index s < 4294967295)"

definition own_keys_order :: "zip \<Rightarrow> zip" where
  "own_keys_order fs =
     sort_key (\<lambda>e. array_index (fst e)) (filter (\<lambda>e. is_array_index (fst e)) fs)
     @ filter (\<lambda>e. \<not> is_array_index (fst e)) fs"

definition generateAsync :: "zip \<Rightarrow> string + zip" where
  "generateAsync fs = Inr (filter (\<lambda>e. fst e \<noteq> []) (own_keys_order fs))"

record zip_state =
  files :: zip
  console :: "string list"

definition js_string :: "string option \<Rightarrow> string" where
  \<comment> \<open>a property that holds a string or \<^verbatim>\<open>null\<close>, turned into a string\<close>
  "js_string v = (case v of None \<Rightarrow> ''null'' | Some s \<Rightarrow> s)"

definition base64Data :: "string \<Rightarrow> string" where
  \<comment> \<open>\<^verbatim>\<open>dataUrl.split(',')[1]\<close> as \<^verbatim>\<open>atob\<close> reads it\<close>
  "base64Data url = (case js_index (js_split CHR '','' url) 1 of None \<Rightarrow> ''undefined'' | Some s \<Rightarrow> s)"

definition decodable :: "batch_result \<Rightarrow> bool" where
  \<comment> \<open>the test \<^verbatim>\<open>result.success && result.dataUrl\<close>\<close>
  "decodable r = (success r \<and> dataUrl' r \<noteq> None \<and> dataUrl' r \<noteq> Some [])"

definition decode_entry :: "batch_result \<Rightarrow> (string \<times> 8 word list) option" where
  \<comment> \<open>the \<^verbatim>\<open>try\<close> block of one turn: the name and the bytes given to \<^verbatim>\<open>zip.file\<close>,
      or \<open>None\<close> when \<^verbatim>\<open>atob\<close> throws\<close>
  "decode_entry r =
     (case atob (base64Data (case dataUrl' r of None \<Rightarrow> [] | Some url \<Rightarrow> url)) of
        None \<Rightarrow> None
      | Some binaryString \<Rightarrow> Some (js_string (fileName r), map of_int binaryString))"

definition add_result :: "batch_result \<Rightarrow> zip_state \<Rightarrow> zip_state" where
  \<comment> \<open>one turn of the loop of \<^verbatim>\<open>createZipFromImages\<close>\<close>
  "add_result r st =
     (if decodable r then
        (case decode_entry r of
           None \<Rightarrow>
             st\<lparr>console := console st @ [''Error adding '' @ js_string (fileName r) @ '' to ZIP:'']\<rparr>
         | Some e \<Rightarrow> st\<lparr>files := zip_file (fst e) (snd e) (files st)\<rparr>)
      else st)"

definition createZipFromImages :: "batch_result list \<Rightarrow> string \<Rightarrow> string list \<times> (string + zip)" where
  \<comment> \<open>what is written to the console, and the outcome of the promise\<close>
  "createZipFromImages compressedResults zipFileName =
     (let st = fold add_result compressedResults \<lparr>files = [], console = []\<rparr>
      in (console st, generateAsync (files st)))"

text \<open>
  \<^verbatim>\<open>handleDownloadZip\<close> of the application, the caller of \<^verbatim>\<open>createZipFromImages\<close>:
  what it does with the results of the last batch at the time \<open>now\<close>: an alert, the
  download of the one successful result under its file name, or the download of the
  archive.  The one successful result is read from its data URL by \<^verbatim>\<open>fetch\<close> and
  \<^verbatim>\<open>blob\<close> of the platform, here the function \<open>fetch\<close> that gives the blob or the
  message of the error thrown; an error is caught and alerted.
\<close>

datatype 'blob download =
    Alert string
  | DownloadFile 'blob "string option"
  | DownloadZip zip string

definition handleDownloadZip ::
  "(string option \<Rightarrow> string + 'blob) \<Rightarrow> batch_result list \<Rightarrow> nat \<Rightarrow> 'blob download" where
  "handleDownloadZip fetch compressedResults now =
     (let successfulResults = filter success compressedResults in
      if length successfulResults = 0 then Alert ''No successfully compressed images to download''
      else if length successfulResults = 1
      then (case fetch (dataUrl' (hd successfulResults)) of
              Inl msg \<Rightarrow> Alert (''Error creating download: '' @ msg)
            | Inr blob \<Rightarrow> DownloadFile blob (fileName (hd successfulResults)))
      else (case snd (createZipFromImages compressedResults ''compressed_images.zip'') of
              Inl msg \<Rightarrow> Alert (''Error creating download: '' @ msg)
            | Inr zipBlob \<Rightarrow>
                DownloadZip zipBlob (''compressed_images_'' @ decimal now @ ''.zip'')))"


section \<open>Sample data\<close>

text \<open>
  Inputs for the examples below: an image object with a name and a data URL, a
  stand-in for \<^verbatim>\<open>compressImage\<close> that rejects the empty data URL \<^verbatim>\<open>data:,\<close> and
  resolves every other data URL with a result of one pixel that carries the URL, and
  a stand-in for the browser.
\<close>

definition sample_image :: "string \<Rightarrow> string \<Rightarrow> unit image" where
  "sample_image nm url = \<lparr>file' = None, dataUrl = Some url, name = Some nm, size' = None\<rparr>"

definition sample_result :: "string \<Rightarrow> compress_result" where
  "sample_result url =
     \<lparr>base64 = url, width = 1, height = 1, format' = ''image/jpeg'', quality' = 7/10,
      originalSize = 3, compressedSize = 3, originalWidth = 1, originalHeight = 1\<rparr>"

definition sample_compress :: "unit compressor" where
  "sample_compress input opts =
     (case input of
        InputUrl (Some url) \<Rightarrow>
          if url = ''data:,'' then Inl ''Failed to load image'' else Inr (sample_result url)
      | _ \<Rightarrow> Inl ''Failed to load image'')"


definition sample_browser :: "(int \<times> int) browser" where
  \<comment> \<open>every data URL but \<^verbatim>\<open>data:,\<close> loads as an image of 4 by 2 pixels; the encoder
      answers differently when it is given a quality\<close>
  "sample_browser =
     \<lparr>image_load = (\<lambda>url. if url = ''data:,'' then None else Some (4, 2)),
      image_width = fst,
      image_height = snd,
      canvas_toDataURL = (\<lambda>img w h fmt q.
         Inr (''data:'' @ fmt @ '';base64,'' @ (case q of None \<Rightarrow> ''AAAA'' | Some v \<Rightarrow> ''BBBB'')))\<rparr>"

definition thin_browser :: "(int \<times> int) browser" where
  \<comment> \<open>every data URL loads as an image of 2000 by 1 pixels; a canvas with a side of
      zero encodes as \<^verbatim>\<open>data:,\<close>, as \<^verbatim>\<open>toDataURL\<close> of the platform does\<close>
  "thin_browser =
     \<lparr>image_load = (\<lambda>url. Some (2000, 1)),
      image_width = fst,
      image_height = snd,
      canvas_toDataURL = (\<lambda>img w h fmt q.
         if w \<le> 0 \<or> h \<le> 0 then Inr ''data:,'' else Inr (''data:'' @ fmt @ '';base64,AAAA''))\<rparr>"


section \<open>Rounding to binary64\<close>

lemma rne_error: "\<bar>of_int (rne y) - y\<bar> \<le> 1/2"
proof -
  have "of_int \<lfloor>y\<rfloor> \<le> y" "y < of_int \<lfloor>y\<rfloor> + 1" by linarith+
  then show ?thesis by (auto simp: rne_def Let_def)
qed


lemma int_le_rne: "of_int m \<le> y \<Longrightarrow> m \<le> rne y"
proof -
  assume a: "of_int m \<le> y"
  then have "m \<le> \<lfloor>y\<rfloor>" by (simp add: le_floor_iff)
  then show ?thesis by (auto simp: rne_def Let_def)
qed


lemma fexp_bounds:
  assumes "x \<noteq> 0"
  shows "2 powi fexp x \<le> \<bar>x\<bar>" and "\<bar>x\<bar> < 2 powi (fexp x + 1)"
proof -
  obtain p q where pq: "quotient_of \<bar>x\<bar> = (p, q)" by (cases "quotient_of \<bar>x\<bar>")
  have q: "0 < q" using pq by (rule quotient_of_denom_pos)
  have x: "\<bar>x\<bar> = of_int p / of_int q" using pq by (rule quotient_of_div)
  have "0 < \<bar>x\<bar>" using assms by simp
  then have p: "0 < p" using x q by (simp add: zero_less_divide_iff)
  define e where "e = bitlen p - bitlen q"
  have bp: "2 ^ nat (bitlen p - 1) \<le> p" "p < 2 ^ nat (bitlen p)" using bitlen_bounds[OF p] by auto
  have bq: "2 ^ nat (bitlen q - 1) \<le> q" "q < 2 ^ nat (bitlen q)" using bitlen_bounds[OF q] by auto
  have bp1: "1 \<le> bitlen p" using p by (simp add: bitlen_def floorlog_def)
  have bq1: "1 \<le> bitlen q" using q by (simp add: bitlen_def floorlog_def)
  have P1: "(2::rat) powi (bitlen p - 1) \<le> of_int p"
    using bp(1) bp1 by (simp add: power_int_def)
  have P2: "of_int p < (2::rat) powi (bitlen p)"
    using bp(2) bp1 by (simp add: power_int_def)
  have Q1: "(2::rat) powi (bitlen q - 1) \<le> of_int q"
    using bq(1) bq1 by (simp add: power_int_def)
  have Q2: "of_int q < (2::rat) powi (bitlen q)"
    using bq(2) bq1 by (simp add: power_int_def)
  have qpos: "(0::rat) < of_int q" using q by simp
  have up: "\<bar>x\<bar> < 2 powi (e + 1)"
  proof -
    have "of_int p < (2::rat) powi (e + 1) * 2 powi (bitlen q - 1)"
      using P2 by (simp add: e_def power_int_add[symmetric])
    also have "\<dots> \<le> 2 powi (e + 1) * of_int q"
      using Q1 by (simp add: mult_left_mono)
    finally show ?thesis using qpos by (simp add: x pos_divide_less_eq)
  qed
  have lo: "2 powi (e - 1) \<le> \<bar>x\<bar>"
  proof -
    have "(2::rat) powi (e - 1) * of_int q \<le> 2 powi (e - 1) * 2 powi (bitlen q)"
      using Q2 by (simp add: mult_left_mono)
    also have "\<dots> = 2 powi (bitlen p - 1)"
      by (simp add: e_def power_int_add[symmetric])
    also have "\<dots> \<le> of_int p" by (rule P1)
    finally show ?thesis using qpos by (simp add: x pos_le_divide_eq)
  qed
  have fe: "fexp x = (if 2 powi e \<le> \<bar>x\<bar> then e else e - 1)"
    by (simp add: fexp_def pq e_def Let_def)
  show "2 powi fexp x \<le> \<bar>x\<bar>" using lo by (simp add: fe)
  show "\<bar>x\<bar> < 2 powi (fexp x + 1)" using up by (auto simp: fe)
qed

lemma fl_unfold:
  assumes "x \<noteq> 0"
  shows "fl x = of_int (rne (x / 2 powi (fexp x - 52))) * 2 powi (fexp x - 52)"
  using assms by (simp add: fl_def Let_def)

lemma powi2_pos: "(0::rat) < 2 powi k"
  by (simp add: power_int_def)

lemma powi2_mono: "a \<le> b \<Longrightarrow> (2::rat) powi a \<le> 2 powi b"
  by (rule power_int_increasing) simp_all

lemma powi2_split: "(2::rat) powi e = 2 powi 52 * 2 powi (e - 52)"
  by (simp add: power_int_add[symmetric] del: power_int_numeral)

lemma powi2_nonneg_int: "0 \<le> k \<Longrightarrow> (2::rat) powi k = of_int (2 ^ nat k)"
  by (simp add: power_int_def)

lemma fl_ge_pow:
  assumes "0 < x"
  shows "2 powi fexp x \<le> fl x"
proof -
  define s :: rat where "s = 2 powi (fexp x - 52)"
  have s: "0 < s" by (simp add: s_def powi2_pos)
  have "2 powi fexp x \<le> x" using fexp_bounds(1)[of x] assms by simp
  then have "2 powi 52 * s \<le> x" using powi2_split[of "fexp x"] by (simp add: s_def)
  then have "of_int (2 ^ 52) \<le> x / s" using s by (simp add: pos_le_divide_eq)
  then have "2 ^ 52 \<le> rne (x / s)" by (rule int_le_rne)
  then have "(of_int (2 ^ 52) :: rat) \<le> of_int (rne (x / s))" by (simp only: of_int_le_iff)
  then have "of_int (2 ^ 52) * s \<le> of_int (rne (x / s)) * s"
    using s by (simp only: mult_le_cancel_right_pos)
  moreover have "of_int (2 ^ 52) * s = 2 powi fexp x"
    using powi2_split[of "fexp x"] by (simp add: s_def)
  moreover have "fl x = of_int (rne (x / s)) * s"
    using assms fl_unfold[of x] by (simp add: s_def)
  ultimately show ?thesis by simp
qed

lemma fl_pos: "0 < x \<Longrightarrow> 0 < fl x"
  using fl_ge_pow[of x] powi2_pos[of "fexp x"] by linarith

lemma repr_scaled:
  assumes "0 \<le> k - e + 52"
  shows "of_int n * 2 powi k / 2 powi (e - 52) = (of_int (n * 2 ^ nat (k - e + 52)) :: rat)"
proof -
  have "(2::rat) powi k / 2 powi (e - 52) = 2 powi (k - e + 52)"
    by (simp add: power_int_diff[symmetric] algebra_simps)
  also have "\<dots> = of_int (2 ^ nat (k - e + 52))" using assms by (rule powi2_nonneg_int)
  finally have "(2::rat) powi k / 2 powi (e - 52) = of_int (2 ^ nat (k - e + 52))" .
  then have "of_int n * ((2::rat) powi k / 2 powi (e - 52)) = of_int n * of_int (2 ^ nat (k - e + 52))"
    by (rule arg_cong)
  then show ?thesis by (simp only: of_int_mult times_divide_eq_right)
qed

lemma repr_small:
  assumes "n \<le> 2 ^ 53" and "k - e + 52 < 0"
  shows "of_int n * 2 powi k \<le> (2::rat) powi e"
proof -
  have "(of_int n :: rat) \<le> of_int (2 ^ 53)" using assms(1) by (simp only: of_int_le_iff)
  then have "(of_int n :: rat) \<le> 2 powi 53" by simp
  then have "of_int n * 2 powi k \<le> (2::rat) powi 53 * 2 powi k"
    using powi2_pos[of k] by (simp only: mult_le_cancel_right_pos)
  also have "\<dots> = 2 powi (53 + k)" by (simp add: power_int_add[symmetric] del: power_int_numeral)
  also have "\<dots> \<le> 2 powi e" using assms(2) by (intro powi2_mono) simp
  finally show ?thesis .
qed


lemma fl_ge_repr:
  assumes "0 < x" and "of_int n * 2 powi k \<le> x" and "n \<le> 2 ^ 53"
  shows "of_int n * 2 powi k \<le> fl x"
proof -
  define e where "e = fexp x"
  define s :: rat where "s = 2 powi (e - 52)"
  have s: "0 < s" by (simp add: s_def powi2_pos)
  have flx: "fl x = of_int (rne (x / s)) * s"
    using assms(1) fl_unfold[of x] by (simp add: s_def e_def)
  show ?thesis
  proof (cases "0 \<le> k - e + 52")
    case True
    define m where "m = n * 2 ^ nat (k - e + 52)"
    have rs: "of_int n * 2 powi k / s = of_int m"
      unfolding s_def m_def using True by (rule repr_scaled)
    have "of_int n * 2 powi k / s \<le> x / s" using assms(2) s by (simp add: divide_right_mono)
    then have "m \<le> rne (x / s)" unfolding rs by (rule int_le_rne)
    then have "(of_int m :: rat) \<le> of_int (rne (x / s))" by (simp only: of_int_le_iff)
    then have "of_int m * s \<le> of_int (rne (x / s)) * s"
      using s by (simp only: mult_le_cancel_right_pos)
    moreover have "of_int m * s = of_int n * 2 powi k" using rs s by (simp add: field_simps)
    ultimately show ?thesis using flx by simp
  next
    case False
    then have "of_int n * 2 powi k \<le> (2::rat) powi e" using assms(3) by (intro repr_small) simp_all
    moreover have "2 powi e \<le> fl x" using fl_ge_pow[OF assms(1)] by (simp add: e_def)
    ultimately show ?thesis by linarith
  qed
qed


lemma fl_ge_int: "0 < x \<Longrightarrow> of_int n \<le> x \<Longrightarrow> n \<le> 2 ^ 53 \<Longrightarrow> of_int n \<le> fl x"
  using fl_ge_repr[of x n 0] by simp

lemma fl_ge_half: "0 < x \<Longrightarrow> 1/2 \<le> x \<Longrightarrow> 1/2 \<le> fl x"
  using fl_ge_repr[of x 1 "-1"] by simp

lemma fl_error:
  "\<bar>fl x - x\<bar> \<le> \<bar>x\<bar> / 2 ^ 53"
proof (cases "x = 0")
  case True
  then show ?thesis by (simp add: fl_def)
next
  case False
  define s :: rat where "s = 2 powi (fexp x - 52)"
  have s: "0 < s" by (simp add: s_def powi2_pos)
  have flx: "fl x = of_int (rne (x / s)) * s"
    using False fl_unfold[of x] by (simp add: s_def)
  have "fl x - x = (of_int (rne (x / s)) - x / s) * s" using s by (simp add: flx field_simps)
  then have "\<bar>fl x - x\<bar> = \<bar>of_int (rne (x / s)) - x / s\<bar> * s" using s by (simp add: abs_mult)
  also have "\<dots> \<le> 1/2 * s" using rne_error[of "x / s"] s by (simp only: mult_le_cancel_right_pos)
  finally have a: "\<bar>fl x - x\<bar> \<le> s / 2" by simp
  have "2 powi 52 * s \<le> \<bar>x\<bar>"
    using fexp_bounds(1)[OF False] powi2_split[of "fexp x"] by (simp add: s_def)
  then have "s * 2 ^ 52 \<le> \<bar>x\<bar>" by (simp add: mult.commute)
  then have "s / 2 \<le> \<bar>x\<bar> / 2 ^ 53" by simp
  then show ?thesis using a by linarith
qed

section \<open>Rounded quotients and products of pixel counts\<close>

lemma Math_round_bounds: "of_int (Math_round x) \<le> x + 1/2" "x - 1/2 < of_int (Math_round x)"
  unfolding Math_round_def by linarith+


lemma Math_round_ge_int: "of_int n - 1/2 \<le> x \<Longrightarrow> n \<le> Math_round x"
  unfolding Math_round_def by (simp add: le_floor_iff)


lemma fmul_error:
  assumes "0 < a0" and "0 < m"
  shows "\<bar>fl (m * fl a0) - m * a0\<bar> \<le> 3 * (m * a0) / 2 ^ 53"
proof -
  define u :: rat where "u = 1 / 2 ^ 53"
  have u: "0 < u" "u \<le> 1" by (simp_all add: u_def)
  define a where "a = fl a0"
  have ea: "\<bar>a - a0\<bar> \<le> a0 * u" using fl_error[of a0] assms(1) by (simp add: a_def u_def)
  have a_pos: "0 < a" using fl_pos[OF assms(1)] by (simp add: a_def)
  have a_up: "a \<le> a0 * (1 + u)" using ea by (simp add: algebra_simps abs_le_iff)
  have e1: "\<bar>fl (m * a) - m * a\<bar> \<le> (m * a) * u"
    using fl_error[of "m * a"] assms(2) a_pos by (simp add: u_def)
  have "(m * a) * u \<le> (m * (a0 * (1 + u))) * u"
    using a_up assms(2) u(1) by (simp add: mult_left_mono mult_right_mono)
  then have e1': "\<bar>fl (m * a) - m * a\<bar> \<le> m * a0 * (u + u * u)" using e1 by (simp add: algebra_simps)
  have "\<bar>m * a - m * a0\<bar> = m * \<bar>a - a0\<bar>" using assms(2) by (simp add: abs_mult right_diff_distrib[symmetric])
  also have "\<dots> \<le> m * (a0 * u)" using ea assms(2) by (simp add: mult_left_mono)
  finally have e2: "\<bar>m * a - m * a0\<bar> \<le> m * a0 * u" by (simp add: algebra_simps)
  have "u * u \<le> u" using u by (simp add: mult_left_le)
  then have "m * a0 * (u * u) \<le> m * a0 * u" using assms by (simp add: mult_left_mono)
  then have "m * a0 * (u + u * u) + m * a0 * u \<le> 3 * (m * a0) * u" by (simp add: algebra_simps)
  moreover have "\<bar>fl (m * a) - m * a0\<bar> \<le> \<bar>fl (m * a) - m * a\<bar> + \<bar>m * a - m * a0\<bar>" by linarith
  ultimately have "\<bar>fl (m * a) - m * a0\<bar> \<le> 3 * (m * a0) * u" using e1' e2 by linarith
  then show ?thesis by (simp add: a_def u_def)
qed

lemma fdiv_error:
  assumes "0 < a0" and "0 < n"
  shows "\<bar>fl (n / fl a0) - n / a0\<bar> \<le> 3 * (n / a0) / 2 ^ 53"
proof -
  define u :: rat where "u = 1 / 2 ^ 53"
  have u: "0 < u" "u \<le> 1/3" by (simp_all add: u_def)
  define a where "a = fl a0"
  have ea: "\<bar>a - a0\<bar> \<le> a0 * u" using fl_error[of a0] assms(1) by (simp add: a_def u_def)
  have a_pos: "0 < a" using fl_pos[OF assms(1)] by (simp add: a_def)
  have a_lo: "a0 * (1 - u) \<le> a" using ea by (simp add: algebra_simps abs_le_iff)
  have lo_pos: "0 < a0 * (1 - u)" using assms(1) u by simp
  define t where "t = n / a0"
  have t: "0 < t" using assms by (simp add: t_def)
  \<comment> \<open>the exact quotient by the rounded ratio\<close>
  have na: "n / a \<le> t / (1 - u)"
  proof -
    have "n / a \<le> n / (a0 * (1 - u))" using a_lo lo_pos assms(2) by (simp add: frac_le)
    then show ?thesis by (simp add: t_def)
  qed
  have d1: "\<bar>n / a - t\<bar> = n * \<bar>a0 - a\<bar> / (a * a0)"
  proof -
    have "n / a - n / a0 = n * (a0 - a) / (a * a0)"
      using a_pos assms(1) by (simp add: field_simps)
    then show ?thesis using a_pos assms by (simp add: t_def abs_mult abs_divide abs_of_pos)
  qed
  have "\<bar>a0 - a\<bar> \<le> a0 * u" using ea by (simp add: abs_minus_commute)
  then have "n * \<bar>a0 - a\<bar> \<le> n * (a0 * u)" using assms(2) by (simp only: mult_le_cancel_left_pos)
  moreover have "0 < a * a0" using a_pos assms(1) by simp
  ultimately have "n * \<bar>a0 - a\<bar> / (a * a0) \<le> n * (a0 * u) / (a * a0)"
    by (simp only: divide_le_cancel) simp
  also have "\<dots> = (n / a) * u" using assms(1) a_pos by (simp add: field_simps)
  finally have e2: "\<bar>n / a - t\<bar> \<le> (n / a) * u" using d1 by simp
  have e1: "\<bar>fl (n / a) - n / a\<bar> \<le> (n / a) * u"
    using fl_error[of "n / a"] assms(2) a_pos by (simp add: u_def)
  have "\<bar>fl (n / a) - t\<bar> \<le> \<bar>fl (n / a) - n / a\<bar> + \<bar>n / a - t\<bar>" by linarith
  then have "\<bar>fl (n / a) - t\<bar> \<le> 2 * ((n / a) * u)" using e1 e2 by linarith
  also have "\<dots> \<le> 2 * ((t / (1 - u)) * u)"
  proof -
    have "(n / a) * u \<le> (t / (1 - u)) * u" using na u(1) by (simp only: mult_le_cancel_right_pos)
    then show ?thesis by linarith
  qed
  also have "\<dots> \<le> 3 * t * u"
  proof -
    have "2 \<le> 3 * (1 - u)" using u by simp
    then have "2 / (1 - u) \<le> 3" using u by (simp add: pos_divide_le_eq)
    moreover have "0 \<le> t * u" using t u(1) by simp
    ultimately have "t * u * (2 / (1 - u)) \<le> t * u * 3" by (rule mult_left_mono)
    moreover have "2 * ((t / (1 - u)) * u) = t * u * (2 / (1 - u))" by simp
    ultimately show ?thesis by (simp only: mult.commute mult.left_commute)
  qed
  finally show ?thesis by (simp add: a_def u_def t_def)
qed

lemma round_half_pixel:
  assumes "0 < B" and "0 \<le> A" and "6 * A < 2 ^ 53"
    and "\<bar>q - of_int A / of_int B\<bar> \<le> 3 * (of_int A / of_int B) / 2 ^ 53"
  shows "2 * \<bar>Math_round q * B - A\<bar> \<le> B"
proof -
  define r where "r = Math_round q"
  define t :: rat where "t = of_int A / of_int B"
  define e :: rat where "e = 3 * t / 2 ^ 53"
  define b :: rat where "b = of_int B"
  have Bp: "0 < b" using assms(1) by (simp add: b_def)
  have Bt: "b * t = of_int A" using Bp by (simp add: t_def b_def)
  have rb: "of_int r \<le> q + 1/2" "q - 1/2 < of_int r"
    using Math_round_bounds[of q] by (simp_all add: r_def)
  have "(of_int (6 * A) :: rat) < of_int (2 ^ 53)" using assms(3) by (simp only: of_int_less_iff)
  then have "6 * (b * t) < 2 ^ 53" by (simp add: Bt)
  then have "2 * (b * (3 * t)) / 2 ^ 53 < 1" by simp
  then have err: "2 * (b * e) < 1" by (simp add: e_def)
  have q_up: "q \<le> t + e" and q_lo: "t - e \<le> q"
    using assms(4) by (simp_all add: abs_le_iff algebra_simps t_def e_def)
  have "of_int r \<le> t + e + 1/2" using rb(1) q_up by linarith
  then have "b * of_int r \<le> b * (t + e + 1/2)" using Bp by (simp only: mult_le_cancel_left_pos)
  then have up: "2 * (b * of_int r) \<le> 2 * (b * t) + 2 * (b * e) + b" by (simp add: algebra_simps)
  have "t - e - 1/2 < of_int r" using rb(2) q_lo by linarith
  then have "b * (t - e - 1/2) < b * of_int r" using Bp by (simp only: mult_less_cancel_left_pos)
  then have lo: "2 * (b * t) - 2 * (b * e) - b < 2 * (b * of_int r)" by (simp add: algebra_simps)
  have up': "2 * (b * of_int r) < 2 * of_int A + b + 1" using up err Bt by linarith
  have lo': "2 * of_int A - b - 1 < 2 * (b * of_int r)" using lo err Bt by linarith
  have "(of_int (2 * (B * r)) :: rat) < of_int (2 * A + B + 1)" using up' by (simp add: b_def)
  then have U: "2 * (B * r) < 2 * A + B + 1" by (simp only: of_int_less_iff)
  have "(of_int (2 * A - B - 1) :: rat) < of_int (2 * (B * r))" using lo' by (simp add: b_def)
  then have L: "2 * A - B - 1 < 2 * (B * r)" by (simp only: of_int_less_iff)
  define p where "p = B * r"
  have "2 * p < 2 * A + B + 1" "2 * A - B - 1 < 2 * p" using U L by (simp_all add: p_def)
  then have "2 * \<bar>p - A\<bar> \<le> B" by presburger
  then show ?thesis by (simp add: p_def r_def mult.commute)
qed

section \<open>The target size\<close>

lemma plan_dimensions_in_bounds:
  assumes "w \<le> opt_maxWidth opts" and "h \<le> opt_maxHeight opts"
  shows "plan_dimensions opts w h = (w, h)"
  using assms by (simp add: plan_dimensions_def Let_def min_def)

lemma aspect_pos: "0 < w \<Longrightarrow> 0 < h \<Longrightarrow> 0 < fdiv (of_int w) (of_int h)"
  unfolding fdiv_def by (rule fl_pos) simp

lemma derived_height:
  assumes "0 < w" "0 < h" "h < 2 ^ 32" "0 < n" "n < 9999"
  shows "2 * \<bar>Math_round (fdiv (of_int n) (fdiv (of_int w) (of_int h))) * w - n * h\<bar> \<le> w"
proof -
  have a0: "(0::rat) < of_int w / of_int h" using assms by simp
  have n: "(0::rat) < of_int n" using assms by simp
  have eq: "(of_int n :: rat) / (of_int w / of_int h) = of_int (n * h) / of_int w" by simp
  have "\<bar>fl (of_int n / fl (of_int w / of_int h)) - of_int (n * h) / of_int w\<bar>
          \<le> 3 * (of_int (n * h) / of_int w) / 2 ^ 53"
    using fdiv_error[OF a0 n] unfolding eq .
  moreover have "0 \<le> n * h" using assms by simp
  moreover have "6 * (n * h) < 2 ^ 53"
  proof -
    define p where "p = n * h"
    have "n * h \<le> 9999 * h" using assms by simp
    also have "\<dots> < 9999 * 2 ^ 32" using assms by simp
    finally have "p < 9999 * 2 ^ 32" by (simp add: p_def)
    then have "6 * p < 2 ^ 53" by simp
    then show ?thesis by (simp only: p_def)
  qed
  ultimately show ?thesis
    using round_half_pixel[of w "n * h" "fl (of_int n / fl (of_int w / of_int h))"] assms(1)
    by (simp add: fdiv_def)
qed

lemma derived_width:
  assumes "0 < w" "0 < h" "w < 2 ^ 32" "0 < n" "n < 9999"
  shows "2 * \<bar>Math_round (fmul (of_int n) (fdiv (of_int w) (of_int h))) * h - n * w\<bar> \<le> h"
proof -
  have a0: "(0::rat) < of_int w / of_int h" using assms by simp
  have n: "(0::rat) < of_int n" using assms by simp
  have eq: "(of_int n :: rat) * (of_int w / of_int h) = of_int (n * w) / of_int h" by simp
  have "\<bar>fl (of_int n * fl (of_int w / of_int h)) - of_int (n * w) / of_int h\<bar>
          \<le> 3 * (of_int (n * w) / of_int h) / 2 ^ 53"
    using fmul_error[OF a0 n] unfolding eq .
  moreover have "0 \<le> n * w" using assms by simp
  moreover have "6 * (n * w) < 2 ^ 53"
  proof -
    define p where "p = n * w"
    have "n * w \<le> 9999 * w" using assms by simp
    also have "\<dots> < 9999 * 2 ^ 32" using assms by simp
    finally have "p < 9999 * 2 ^ 32" by (simp add: p_def)
    then have "6 * p < 2 ^ 53" by simp
    then show ?thesis by (simp only: p_def)
  qed
  ultimately show ?thesis
    using round_half_pixel[of h "n * w" "fl (of_int n * fl (of_int w / of_int h))"] assms(2)
    by (simp add: fmul_def fdiv_def)
qed




lemma Math_round_nonneg: "0 \<le> x \<Longrightarrow> 0 \<le> Math_round x"
  unfolding Math_round_def by simp

lemma fdiv_pos: "0 < x \<Longrightarrow> 0 < y \<Longrightarrow> 0 < fdiv x y"
  unfolding fdiv_def by (rule fl_pos) simp

lemma fmul_pos: "0 < x \<Longrightarrow> 0 < y \<Longrightarrow> 0 < fmul x y"
  unfolding fmul_def by (rule fl_pos) simp

lemma side_zero:
  fixes w q k :: int
  assumes "0 < w" "0 \<le> q" "2 * \<bar>q * w - k\<bar> \<le> w" "2 * k < w"
  shows "q = 0"
proof (rule ccontr)
  assume "q \<noteq> 0"
  then have "1 \<le> q" using assms(2) by simp
  then have "1 * w \<le> q * w" using assms(1) by (intro mult_right_mono) simp_all
  moreover define p where "p = q * w"
  ultimately have "w \<le> p" "2 * \<bar>p - k\<bar> \<le> w" using assms(3) by simp_all
  then show False using assms(4) by presburger
qed

lemma side_pos:
  fixes w q k :: int
  assumes "0 < w" "2 * \<bar>q * w - k\<bar> \<le> w" "w < 2 * k"
  shows "1 \<le> q"
proof (rule ccontr)
  assume "\<not> 1 \<le> q"
  then have "q \<le> 0" by simp
  then have "q * w \<le> 0 * w" using assms(1) by (intro mult_right_mono) simp_all
  moreover define p where "p = q * w"
  ultimately have "p \<le> 0" "2 * \<bar>p - k\<bar> \<le> w" using assms(2) by simp_all
  then show False using assms(3) by presburger
qed

lemma plan_landscape:
  assumes "opt_maintainAspectRatio opts"
    and "0 < opt_maxWidth opts" "opt_maxWidth opts < 9999"
    and "0 < opt_maxHeight opts" "opt_maxHeight opts < 9999"
    and "opt_maxWidth opts < w \<or> opt_maxHeight opts < h" and "h < w"
  shows "plan_dimensions opts w h =
          (if opt_maxHeight opts
                < Math_round (fdiv (of_int (min w (opt_maxWidth opts))) (fdiv (of_int w) (of_int h)))
           then (Math_round (fmul (of_int (opt_maxHeight opts)) (fdiv (of_int w) (of_int h))),
                 opt_maxHeight opts)
           else (min w (opt_maxWidth opts),
                 Math_round (fdiv (of_int (min w (opt_maxWidth opts))) (fdiv (of_int w) (of_int h)))))"
  using assms by (simp add: plan_dimensions_def Let_def)

lemma plan_portrait:
  assumes "opt_maintainAspectRatio opts"
    and "0 < opt_maxWidth opts" "opt_maxWidth opts < 9999"
    and "0 < opt_maxHeight opts" "opt_maxHeight opts < 9999"
    and "opt_maxWidth opts < w \<or> opt_maxHeight opts < h" and "\<not> h < w"
  shows "plan_dimensions opts w h =
          (if opt_maxWidth opts
                < Math_round (fmul (of_int (min h (opt_maxHeight opts))) (fdiv (of_int w) (of_int h)))
           then (opt_maxWidth opts,
                 Math_round (fdiv (of_int (opt_maxWidth opts)) (fdiv (of_int w) (of_int h))))
           else (Math_round (fmul (of_int (min h (opt_maxHeight opts))) (fdiv (of_int w) (of_int h))),
                 min h (opt_maxHeight opts)))"
  using assms by (simp add: plan_dimensions_def Let_def)

lemma plan_thin_landscape:
  assumes w: "0 < w" "w < 2 ^ 32" and h: "0 < h" "h < 2 ^ 32"
    and m: "opt_maintainAspectRatio opts"
    and mw: "0 < opt_maxWidth opts" "opt_maxWidth opts < 9999"
    and mh: "0 < opt_maxHeight opts" "opt_maxHeight opts < 9999"
    and thin: "2 * opt_maxWidth opts * h < w"
  shows "plan_dimensions opts w h = (opt_maxWidth opts, 0)"
proof -
  define mW where "mW = opt_maxWidth opts"
  define mH where "mH = opt_maxHeight opts"
  define a where "a = fdiv (of_int w) (of_int h)"
  have a: "0 < a" unfolding a_def using w(1) h(1) by (rule aspect_pos)
  note gate = mw[folded mW_def] mh[folded mH_def]
  have big: "mW < w" "h < w"
  proof -
    define p where "p = mW * h"
    have "mW * 1 \<le> mW * h" using h(1) gate(1) by (intro mult_left_mono) simp_all
    then have 1: "mW \<le> p" by (simp only: p_def mult_1_right)
    have "1 * h \<le> mW * h" using h(1) gate(1) by (intro mult_right_mono) simp_all
    then have 2: "h \<le> p" by (simp only: p_def mult_1)
    have 3: "2 * p < w" using thin by (simp add: mW_def p_def)
    show "mW < w" "h < w" using 1 2 3 gate(1) by presburger+
  qed
  then have n: "min w mW = mW" by simp
  define q where "q = Math_round (fdiv (of_int mW) a)"
  have "0 < fdiv (of_int mW) a" using gate(1) a by (intro fdiv_pos) simp_all
  then have q0: "0 \<le> q" unfolding q_def by (intro Math_round_nonneg) simp
  have "2 * \<bar>q * w - mW * h\<bar> \<le> w"
    unfolding q_def a_def using w(1) h(1) h(2) gate(1,2) by (rule derived_height)
  moreover have "2 * (mW * h) < w" using thin by (simp add: mW_def)
  ultimately have "q = 0" using w(1) q0 by (intro side_zero[of w q "mW * h"])
  then show ?thesis
    using plan_landscape[OF m mw mh _ big(2)] big(1) gate(3) n
    by (simp add: mW_def[symmetric] mH_def[symmetric] a_def[symmetric] q_def[symmetric])
qed

lemma plan_thin_portrait:
  assumes w: "0 < w" "w < 2 ^ 32" and h: "0 < h" "h < 2 ^ 32"
    and m: "opt_maintainAspectRatio opts"
    and mw: "0 < opt_maxWidth opts" "opt_maxWidth opts < 9999"
    and mh: "0 < opt_maxHeight opts" "opt_maxHeight opts < 9999"
    and thin: "2 * opt_maxHeight opts * w < h"
  shows "plan_dimensions opts w h = (0, opt_maxHeight opts)"
proof -
  define mW where "mW = opt_maxWidth opts"
  define mH where "mH = opt_maxHeight opts"
  define a where "a = fdiv (of_int w) (of_int h)"
  have a: "0 < a" unfolding a_def using w(1) h(1) by (rule aspect_pos)
  note gate = mw[folded mW_def] mh[folded mH_def]
  have big: "mH < h" "\<not> h < w"
  proof -
    define p where "p = mH * w"
    have "mH * 1 \<le> mH * w" using w(1) gate(3) by (intro mult_left_mono) simp_all
    then have 1: "mH \<le> p" by (simp only: p_def mult_1_right)
    have "1 * w \<le> mH * w" using w(1) gate(3) by (intro mult_right_mono) simp_all
    then have 2: "w \<le> p" by (simp only: p_def mult_1)
    have 3: "2 * p < h" using thin by (simp add: mH_def p_def)
    show "mH < h" "\<not> h < w" using 1 2 3 gate(3) by presburger+
  qed
  then have n: "min h mH = mH" by simp
  define q where "q = Math_round (fmul (of_int mH) a)"
  have "0 < fmul (of_int mH) a" using gate(3) a by (intro fmul_pos) simp_all
  then have q0: "0 \<le> q" unfolding q_def by (intro Math_round_nonneg) simp
  have "2 * \<bar>q * h - mH * w\<bar> \<le> h"
    unfolding q_def a_def using w(1) h(1) w(2) gate(3,4) by (rule derived_width)
  moreover have "2 * (mH * w) < h" using thin by (simp add: mH_def)
  ultimately have "q = 0" using h(1) q0 by (intro side_zero[of h q "mH * w"])
  then show ?thesis
    using plan_portrait[OF m mw mh _ big(2)] big(1) gate(1) n
    by (simp add: mW_def[symmetric] mH_def[symmetric] a_def[symmetric] q_def[symmetric])
qed

lemma plan_nonneg:
  assumes w: "0 < w" and h: "0 < h"
  shows "0 \<le> fst (plan_dimensions opts w h) \<and> 0 \<le> snd (plan_dimensions opts w h)"
proof -
  define a where "a = fdiv (of_int w) (of_int h)"
  have a: "0 < a" unfolding a_def using w h by (rule aspect_pos)
  have d: "0 \<le> Math_round (fdiv (of_int n) a)" if "0 < n" for n
    using that a by (intro Math_round_nonneg less_imp_le fdiv_pos) simp_all
  have m: "0 \<le> Math_round (fmul (of_int n) a)" if "0 < n" for n
    using that a by (intro Math_round_nonneg less_imp_le fmul_pos) simp_all
  show ?thesis
    using w h d m by (simp add: plan_dimensions_def Let_def a_def[symmetric])
qed

lemma plan_sides_pos_aspect:
  assumes w: "0 < w" "w < 2 ^ 32" and h: "0 < h" "h < 2 ^ 32"
    and m: "opt_maintainAspectRatio opts"
    and mw: "0 < opt_maxWidth opts" "opt_maxWidth opts < 9999"
    and mh: "0 < opt_maxHeight opts" "opt_maxHeight opts < 9999"
    and wide: "w < 2 * opt_maxWidth opts * h" and tall: "h < 2 * opt_maxHeight opts * w"
  shows "1 \<le> fst (plan_dimensions opts w h) \<and> 1 \<le> snd (plan_dimensions opts w h)"
proof -
  define mW where "mW = opt_maxWidth opts"
  define mH where "mH = opt_maxHeight opts"
  define a where "a = fdiv (of_int w) (of_int h)"
  note gate = mw[folded mW_def] mh[folded mH_def]
  show ?thesis
  proof (cases "w > mW \<or> h > mH")
    case False
    then have "plan_dimensions opts w h = (w, h)"
      using plan_dimensions_in_bounds[of w opts h] by (simp add: mW_def mH_def)
    then show ?thesis using w(1) h(1) by simp
  next
    case resize: True
    show ?thesis
    proof (cases "w > h")
      case land: True
      define n where "n = min w mW"
      define q where "q = Math_round (fdiv (of_int n) a)"
      define x where "x = Math_round (fmul (of_int mH) a)"
      have n: "0 < n" "n < 9999" using w(1) gate by (simp_all add: n_def)
      have p: "plan_dimensions opts w h = (if q > mH then (x, mH) else (n, q))"
        using plan_landscape[OF m mw mh _ land] resize
        by (simp add: mW_def[symmetric] mH_def[symmetric] a_def[symmetric] n_def[symmetric] q_def[symmetric] x_def[symmetric])
      have "2 * \<bar>q * w - n * h\<bar> \<le> w"
        unfolding q_def a_def using w(1) h(1) h(2) n by (rule derived_height)
      moreover have "w < 2 * (n * h)"
      proof (cases "w \<le> mW")
        case True
        have "w * 1 \<le> w * h" using w(1) h(1) by (intro mult_left_mono) simp_all
        then have "w \<le> w * h" by (simp only: mult_1_right)
        moreover define p where "p = w * h"
        ultimately have "w < 2 * p" using w(1) by simp
        then show ?thesis using True by (simp add: n_def p_def)
      next
        case False
        then show ?thesis using wide by (simp add: n_def mW_def)
      qed
      ultimately have q1: "1 \<le> q" using w(1) by (intro side_pos[of w q "n * h"])
      have "2 * \<bar>x * h - mH * w\<bar> \<le> h"
        unfolding x_def a_def using w(1) h(1) w(2) gate(3,4) by (rule derived_width)
      moreover have "h < 2 * (mH * w)" using tall by (simp add: mH_def)
      ultimately have x1: "1 \<le> x" using h(1) by (intro side_pos[of h x "mH * w"])
      show ?thesis using p q1 x1 n(1) gate(3) by simp
    next
      case port: False
      define n where "n = min h mH"
      define q where "q = Math_round (fmul (of_int n) a)"
      define y where "y = Math_round (fdiv (of_int mW) a)"
      have n: "0 < n" "n < 9999" using h(1) gate by (simp_all add: n_def)
      have p: "plan_dimensions opts w h = (if q > mW then (mW, y) else (q, n))"
        using plan_portrait[OF m mw mh _ port] resize
        by (simp add: mW_def[symmetric] mH_def[symmetric] a_def[symmetric] n_def[symmetric] q_def[symmetric] y_def[symmetric])
      have "2 * \<bar>q * h - n * w\<bar> \<le> h"
        unfolding q_def a_def using w(1) h(1) w(2) n by (rule derived_width)
      moreover have "h < 2 * (n * w)"
      proof (cases "h \<le> mH")
        case True
        have "h * 1 \<le> h * w" using w(1) h(1) by (intro mult_left_mono) simp_all
        then have "h \<le> h * w" by (simp only: mult_1_right)
        moreover define p where "p = h * w"
        ultimately have "h < 2 * p" using h(1) by simp
        then show ?thesis using True by (simp add: n_def p_def)
      next
        case False
        then show ?thesis using tall by (simp add: n_def mH_def)
      qed
      ultimately have q1: "1 \<le> q" using h(1) by (intro side_pos[of h q "n * w"])
      have "2 * \<bar>y * w - mW * h\<bar> \<le> w"
        unfolding y_def a_def using w(1) h(1) h(2) gate(1,2) by (rule derived_height)
      moreover have "w < 2 * (mW * h)" using wide by (simp add: mW_def)
      ultimately have y1: "1 \<le> y" using w(1) by (intro side_pos[of w y "mW * h"])
      show ?thesis using p q1 y1 n(1) gate(1) by simp
    qed
  qed
qed

lemma plan_sides_pos_other:
  assumes w: "0 < w" and h: "0 < h"
    and "\<not> (opt_maintainAspectRatio opts
            \<and> 0 < opt_maxWidth opts \<and> opt_maxWidth opts < 9999
            \<and> 0 < opt_maxHeight opts \<and> opt_maxHeight opts < 9999)"
  shows "1 \<le> fst (plan_dimensions opts w h) \<and> 1 \<le> snd (plan_dimensions opts w h)"
  using assms by (auto simp add: plan_dimensions_def Let_def)

lemma Math_round_half_up:
  "Math_round x = (if x - of_int \<lfloor>x\<rfloor> < 1/2 then \<lfloor>x\<rfloor> else \<lfloor>x\<rfloor> + 1)"
proof -
  have b: "of_int \<lfloor>x\<rfloor> \<le> x" "x < of_int \<lfloor>x\<rfloor> + 1" by linarith+
  show ?thesis
  proof (cases "x - of_int \<lfloor>x\<rfloor> < 1/2")
    case True
    have "\<lfloor>x + 1/2\<rfloor> = \<lfloor>x\<rfloor>" using b True by (intro floor_unique) linarith+
    then show ?thesis using True by (simp add: Math_round_def)
  next
    case False
    have "of_int (\<lfloor>x\<rfloor> + 1) \<le> x + 1/2" "x + 1/2 < of_int (\<lfloor>x\<rfloor> + 1) + 1"
      using b False by simp_all
    then have "\<lfloor>x + 1/2\<rfloor> = \<lfloor>x\<rfloor> + 1" by (rule floor_unique)
    then show ?thesis using False by (simp add: Math_round_def)
  qed
qed


text \<open>
  Where the exactly proportional side is half a pixel, the rounding of the quotient
  and of the product decides: for an image of 1 by 98 under a height of 49 the source
  computes \<open>49 * (1 / 98)\<close> as a Number just below one half, and the width is 0.
\<close>

lemma half_pixel_tie:
  "fmul 49 (fdiv 1 98) = 9007199254740991 / 18014398509481984
   \<and> plan_dimensions (preset_medium\<lparr>maxHeight := Some 49\<rparr>) 1 98 = (0, 49)"
  by code_simp


text \<open>The sizes of the examples that the specification gives.\<close>

lemma plan_examples:
  "plan_dimensions preset_medium 2000 1000 = (800, 400)
   \<and> plan_dimensions preset_medium 1000 2000 = (400, 800)
   \<and> plan_dimensions preset_medium 500 500 = (500, 500)"
  by code_simp


section \<open>The loop over the batch\<close>

lemma batch_loop_results:
  "results (batch_loop compress opts onProgress len i imgs st) =
     results st @ map (\<lambda>k. fst (attempt compress opts onProgress len (i + k) (imgs ! k))) [0..<length imgs]"
proof (induction imgs arbitrary: i st)
  case Nil
  then show ?case by simp
next
  case (Cons img rest)
  have "map (\<lambda>k. fst (attempt compress opts onProgress len (i + k) ((img # rest) ! k))) [0..<length (img # rest)]
        = fst (attempt compress opts onProgress len i img)
          # map (\<lambda>k. fst (attempt compress opts onProgress len (Suc i + k) (rest ! k))) [0..<length rest]"
    by (simp add: upt_conv_Cons map_Suc_upt[symmetric] o_def del: upt_Suc)
  then show ?case by (simp add: Cons.IH process_image_def del: upt_Suc)
qed

lemma batch_loop_trace:
  "trace (batch_loop compress opts onProgress len i imgs st) =
     trace st @ concat (map (\<lambda>k. snd (attempt compress opts onProgress len (i + k) (imgs ! k)) @ [Push (i + k)])
                          [0..<length imgs])"
proof (induction imgs arbitrary: i st)
  case Nil
  then show ?case by simp
next
  case (Cons img rest)
  have "map (\<lambda>k. snd (attempt compress opts onProgress len (i + k) ((img # rest) ! k)) @ [Push (i + k)]) [0..<length (img # rest)]
        = (snd (attempt compress opts onProgress len i img) @ [Push i])
          # map (\<lambda>k. snd (attempt compress opts onProgress len (Suc i + k) (rest ! k)) @ [Push (Suc i + k)]) [0..<length rest]"
    by (simp add: upt_conv_Cons map_Suc_upt[symmetric] o_def del: upt_Suc)
  then show ?case by (simp add: Cons.IH process_image_def del: upt_Suc)
qed

lemma processBatchImages_map:
  "processBatchImages compress opts onProgress images =
     map (\<lambda>k. fst (attempt compress opts onProgress (length images) k (images ! k))) [0..<length images]"
  by (simp add: processBatchImages_def run_batch_def batch_loop_results)

lemma run_batch_trace:
  "trace (run_batch compress opts onProgress images) =
     concat (map (\<lambda>k. snd (attempt compress opts onProgress (length images) k (images ! k)) @ [Push k])
               [0..<length images])"
  by (simp add: run_batch_def batch_loop_trace)

lemma attempt_originalName:
  "originalName (fst (attempt compress opts onProgress len i img)) = name img"
  by (simp add: attempt_def failure_result_def success_result_def split: option.splits sum.splits)


section \<open>The entries of the archive\<close>

lemma files_set_names:
  "map fst (files_set nm obj fs) = (if nm \<in> fst ` set fs then map fst fs else map fst fs @ [nm])"
  by (induction fs) (auto simp add: files_set_def)

lemma files_set_distinct: "distinct (map fst fs) \<Longrightarrow> distinct (map fst (files_set nm obj fs))"
  by (simp add: files_set_names)

lemma files_set_map_of: "map_of (files_set nm obj fs) = (map_of fs)(nm \<mapsto> obj)"
proof (cases "nm \<in> fst ` set fs")
  case False
  then have "map_of fs nm = None" by (simp add: map_of_eq_None_iff)
  then show ?thesis using False
    by (auto simp add: files_set_def fun_eq_iff map_add_def split: option.splits)
next
  case True
  have "map_of (map (\<lambda>e. if fst e = nm then (nm, obj) else e) fs) x
          = (if x = nm \<and> nm \<in> fst ` set fs then Some obj else map_of fs x)" for fs :: zip and x
    by (induction fs) (auto simp add: rev_image_eqI)
  then show ?thesis using True by (simp add: files_set_def fun_eq_iff)
qed

lemma folderAdd_distinct: "distinct (map fst fs) \<Longrightarrow> distinct (map fst (folderAdd nm fs))"
  by (induction nm fs rule: folderAdd.induct) (subst folderAdd.simps, simp add: files_set_distinct)

lemma folderAdd_keeps: "map_of fs x = Some v \<Longrightarrow> map_of (folderAdd nm fs) x = Some v"
proof (induction nm fs rule: folderAdd.induct)
  case (1 nm fs)
  show ?case
  proof (cases "map_of fs (forceTrailingSlash nm) \<noteq> None")
    case True
    then show ?thesis using 1 by (subst folderAdd.simps) simp
  next
    case False
    then have "x \<noteq> forceTrailingSlash nm" using "1.prems" by auto
    then show ?thesis using False 1 by (subst folderAdd.simps) (simp add: files_set_map_of)
  qed
qed

lemma folderAdd_files: "map_of (folderAdd nm fs) x = Some (File b) \<Longrightarrow> map_of fs x = Some (File b)"
proof (induction nm fs rule: folderAdd.induct)
  case (1 nm fs)
  show ?case
  proof (cases "map_of fs (forceTrailingSlash nm) \<noteq> None")
    case True
    then show ?thesis using "1.prems" by (subst (asm) folderAdd.simps) simp
  next
    case False
    then show ?thesis using "1.prems" "1.IH"
      by (subst (asm) folderAdd.simps) (auto simp add: files_set_map_of split: if_splits)
  qed
qed

lemma zip_file_distinct: "distinct (map fst fs) \<Longrightarrow> distinct (map fst (zip_file nm bytes fs))"
  by (simp add: zip_file_def files_set_distinct folderAdd_distinct)

lemma zip_file_new: "map_of (zip_file nm bytes fs) nm = Some (File bytes)"
  unfolding zip_file_def files_set_map_of by (rule fun_upd_same)

lemma zip_file_keeps:
  "x \<noteq> nm \<Longrightarrow> map_of fs x = Some v \<Longrightarrow> map_of (zip_file nm bytes fs) x = Some v"
  by (simp add: zip_file_def files_set_map_of folderAdd_keeps)

lemma zip_file_files:
  assumes "map_of (zip_file nm bytes fs) x = Some (File b)" and "x \<noteq> nm"
  shows "map_of fs x = Some (File b)"
proof -
  have "map_of (if parentFolder nm = [] then fs else folderAdd (parentFolder nm) fs) x = Some (File b)"
    using assms by (simp add: zip_file_def files_set_map_of)
  then show ?thesis by (cases "parentFolder nm = []") (auto dest: folderAdd_files)
qed

lemma fold_zip_file_distinct:
  "distinct (map fst fs) \<Longrightarrow> distinct (map fst (fold (\<lambda>e. zip_file (fst e) (snd e)) es fs))"
  by (induction es arbitrary: fs) (simp_all add: zip_file_distinct)

lemma fold_zip_file_last:
  "map_of (rev es) nm = Some bytes \<Longrightarrow>
     map_of (fold (\<lambda>e. zip_file (fst e) (snd e)) es fs) nm = Some (File bytes)"
proof (induction es rule: rev_induct)
  case Nil
  then show ?case by simp
next
  case (snoc e es)
  then show ?case by (cases "fst e = nm") (auto simp add: zip_file_new zip_file_keeps)
qed

lemma fold_zip_file_files:
  "map_of (fold (\<lambda>e. zip_file (fst e) (snd e)) es []) nm = Some (File bytes) \<Longrightarrow>
     map_of (rev es) nm = Some bytes"
proof (induction es arbitrary: bytes rule: rev_induct)
  case Nil
  then show ?case by simp
next
  case (snoc e es)
  show ?case
  proof (cases "fst e = nm")
    case True
    then show ?thesis using snoc.prems by (simp add: zip_file_new)
  next
    case False
    then have "map_of (fold (\<lambda>e. zip_file (fst e) (snd e)) es []) nm = Some (File bytes)"
      using snoc.prems zip_file_files[of "fst e" "snd e" _ nm bytes] by simp
    then show ?thesis using False snoc.IH by simp
  qed
qed

lemma own_keys_order_set: "set (own_keys_order fs) = set fs"
  by (auto simp add: own_keys_order_def)

lemma own_keys_order_distinct:
  "distinct (map fst fs) \<Longrightarrow> distinct (map fst (own_keys_order fs))"
  by (auto simp add: own_keys_order_def distinct_map inj_on_def)

lemma own_keys_order_map_of:
  "distinct (map fst fs) \<Longrightarrow> map_of (own_keys_order fs) = map_of fs"
  using map_of_inject_set[of "own_keys_order fs" fs]
  by (simp add: own_keys_order_distinct own_keys_order_set)

lemma map_of_named: "map_of (filter (\<lambda>e. fst e \<noteq> []) xs) nm = (if nm = [] then None else map_of xs nm)"
  by (induction xs) auto

lemma generateAsync_entries:
  assumes "distinct (map fst fs)"
  shows "\<exists>z. generateAsync fs = Inr z \<and> distinct (map fst z)
           \<and> (\<forall>nm. map_of z nm = (if nm = [] then None else map_of fs nm))"
proof -
  have "distinct (map fst (filter (\<lambda>e. fst e \<noteq> []) (own_keys_order fs)))"
    using own_keys_order_distinct[OF assms] by (simp add: distinct_map_filter)
  then show ?thesis
    by (simp add: generateAsync_def map_of_named own_keys_order_map_of[OF assms])
qed

lemma file_entries_count:
  assumes "distinct (map fst z)"
    and "\<And>nm bytes. map_of z nm = Some (File bytes) \<Longrightarrow> map_of (rev es) nm = Some bytes"
  shows "length (filter (\<lambda>e. snd e \<noteq> Folder) z) \<le> length es"
proof -
  define F where "F = filter (\<lambda>e. snd e \<noteq> Folder) z"
  have dF: "distinct (map fst F)" unfolding F_def using assms(1) by (rule distinct_map_filter)
  have "fst e \<in> fst ` set es" if "e \<in> set F" for e
  proof -
    obtain nm obj where "e = (nm, obj)" by (cases e)
    moreover from this have "obj \<noteq> Folder" using that unfolding F_def by simp
    ultimately obtain b where e: "e = (nm, File b)" by (cases obj) simp_all
    then have "(nm, File b) \<in> set z" using that unfolding F_def by simp
    then have "map_of z nm = Some (File b)" using assms(1) by simp
    then have "map_of (rev es) nm = Some b" by (rule assms(2))
    then have "(nm, b) \<in> set (rev es)" by (rule map_of_SomeD)
    then have "fst (nm, b) \<in> fst ` set es" by (intro imageI) simp
    then show ?thesis using e by simp
  qed
  then have sub: "set (map fst F) \<subseteq> set (map fst es)" by auto
  have "length F = card (set (map fst F))" using distinct_card[OF dF] by simp
  also have "\<dots> \<le> card (set (map fst es))" using sub by (intro card_mono) simp_all
  also have "\<dots> \<le> length es" using card_length[of "map fst es"] by simp
  finally show ?thesis unfolding F_def .
qed

lemma fold_add_result_files:
  "files (fold add_result rs st)
     = fold (\<lambda>e. zip_file (fst e) (snd e))
         (List.map_filter (\<lambda>r. if decodable r then decode_entry r else None) rs) (files st)"
  by (induction rs arbitrary: st)
     (auto simp add: add_result_def List.map_filter_simps split: option.splits)


lemma createZipFromImages_archive:
  "snd (createZipFromImages rs zipFileName)
     = generateAsync (fold (\<lambda>e. zip_file (fst e) (snd e))
              (List.map_filter (\<lambda>r. if decodable r then decode_entry r else None) rs) [])"
  by (simp add: createZipFromImages_def Let_def fold_add_result_files)


lemma createZipFromImages_entries:
  "\<exists>z. snd (createZipFromImages rs zipFileName) = Inr z
       \<and> distinct (map fst z)
       \<and> (\<forall>nm bytes. nm \<noteq> [] \<longrightarrow>
            map_of (rev (List.map_filter (\<lambda>r. if decodable r then decode_entry r else None) rs)) nm = Some bytes
            \<longrightarrow> map_of z nm = Some (File bytes))
       \<and> (\<forall>nm bytes. map_of z nm = Some (File bytes) \<longrightarrow>
            nm \<noteq> [] \<and> map_of (rev (List.map_filter (\<lambda>r. if decodable r then decode_entry r else None) rs)) nm = Some bytes)
       \<and> length (filter (\<lambda>e. snd e \<noteq> Folder) z)
           \<le> length (List.map_filter (\<lambda>r. if decodable r then decode_entry r else None) rs)"
proof -
  define es where "es = List.map_filter (\<lambda>r. if decodable r then decode_entry r else None) rs"
  define fs where "fs = fold (\<lambda>e. zip_file (fst e) (snd e)) es []"
  have d: "distinct (map fst fs)" unfolding fs_def by (rule fold_zip_file_distinct) simp
  from generateAsync_entries[OF d] obtain z where z: "generateAsync fs = Inr z" "distinct (map fst z)"
    "\<And>nm. map_of z nm = (if nm = [] then None else map_of fs nm)"
    by blast
  have 1: "map_of z nm = Some (File bytes)" if "nm \<noteq> []" "map_of (rev es) nm = Some bytes" for nm bytes
    using that z(3)[of nm] fold_zip_file_last[of es nm bytes "[]"] by (simp add: fs_def)
  have 2: "nm \<noteq> [] \<and> map_of (rev es) nm = Some bytes" if "map_of z nm = Some (File bytes)" for nm bytes
    using that z(3)[of nm] fold_zip_file_files[of es nm bytes] by (auto simp add: fs_def split: if_splits)
  have 3: "length (filter (\<lambda>e. snd e \<noteq> Folder) z) \<le> length es"
    using z(2) 2 by (intro file_entries_count) simp_all
  have "snd (createZipFromImages rs zipFileName) = Inr z"
    using z(1) by (simp add: createZipFromImages_archive es_def fs_def)
  then show ?thesis
  proof (unfold es_def[symmetric], intro exI[of _ z] conjI allI impI)
    show "distinct (map fst z)" by (rule z(2))
  next
    fix nm bytes
    assume "nm \<noteq> []" "map_of (rev es) nm = Some bytes"
    then show "map_of z nm = Some (File bytes)" by (rule 1)
  next
    fix nm bytes
    assume "map_of z nm = Some (File bytes)"
    then show "nm \<noteq> []" "map_of (rev es) nm = Some bytes" using 2 by simp_all
  next
    show "length (filter (\<lambda>e. snd e \<noteq> Folder) z) \<le> length es" by (rule 3)
  qed
qed



section \<open>The dimension planner\<close>




text \<open>
  C2.  The planner does not read \<^verbatim>\<open>preserveDimensions\<close>.  It keeps the original
  size whenever \<^verbatim>\<open>maxWidth\<close> or \<^verbatim>\<open>maxHeight\<close> is 9999 or more, the value the
  settings panel assigns when the box ``Preserve Original Dimensions'' is ticked; the
  flag itself changes nothing.  So the options that the application keeps after the
  box is ticked preserve every size.
\<close>

theorem preserve_by_sentinel:
  "(9999 \<le> opt_maxWidth opts \<or> 9999 \<le> opt_maxHeight opts
      \<longrightarrow> plan_dimensions opts w h = (w, h))
   \<and> plan_dimensions (opts\<lparr>preserveDimensions := p\<rparr>) w h = plan_dimensions opts w h
   \<and> plan_dimensions (last (handleCustomOptionChange_preserve opts True)) w h = (w, h)"
proof -
  have s: "plan_dimensions opts' w h = (w, h)"
    if "9999 \<le> opt_maxWidth opts' \<or> 9999 \<le> opt_maxHeight opts'" for opts'
    using that by (auto simp add: plan_dimensions_def Let_def)
  have "plan_dimensions (opts\<lparr>preserveDimensions := p\<rparr>) w h = plan_dimensions opts w h"
  proof -
    have "opt_maxWidth (opts\<lparr>preserveDimensions := p\<rparr>) = opt_maxWidth opts"
      and "opt_maxHeight (opts\<lparr>preserveDimensions := p\<rparr>) = opt_maxHeight opts"
      and "opt_maintainAspectRatio (opts\<lparr>preserveDimensions := p\<rparr>) = opt_maintainAspectRatio opts"
      by (simp_all add: opt_maxWidth_def opt_maxHeight_def opt_maintainAspectRatio_def)
    then show ?thesis unfolding plan_dimensions_def by (simp only:)
  qed
  moreover have "plan_dimensions (last (handleCustomOptionChange_preserve opts True)) w h = (w, h)"
    by (rule s) (simp add: handleCustomOptionChange_preserve_def opt_maxHeight_def)
  ultimately show ?thesis using s by simp
qed

theorem preserve_by_sentinel_witness:
  "plan_dimensions (preset_medium\<lparr>maxWidth := Some 9999, maxHeight := Some 9999,
       preserveDimensions := Some True\<rparr>) 2000 1000 = (2000, 1000)
   \<and> plan_dimensions (preset_medium\<lparr>preserveDimensions := Some True\<rparr>) 2000 1000
       = plan_dimensions preset_medium 2000 1000
   \<and> plan_dimensions (last (handleCustomOptionChange_preserve preset_medium True)) 2000 1000
       = (2000, 1000)"
  using preserve_by_sentinel [of "preset_medium\<lparr>maxWidth := Some 9999, maxHeight := Some 9999,
       preserveDimensions := Some True\<rparr>" 2000 1000 "Some True"]
    preserve_by_sentinel [of preset_medium 2000 1000 "Some True"]
  by (simp add: preset_medium_def opt_maxWidth_def)

text \<open>
  The claim as stated fails for a configuration that sets the flag and keeps the
  bounds of the preset: the image is scaled down.
\<close>

theorem preserveDimensions_not_consulted:
  "preserveDimensions (preset_medium\<lparr>preserveDimensions := Some True\<rparr>) = Some True
   \<and> plan_dimensions (preset_medium\<lparr>preserveDimensions := Some True\<rparr>) 2000 1000 = (800, 400)
   \<and> plan_dimensions (preset_medium\<lparr>preserveDimensions := Some True\<rparr>) 2000 1000 \<noteq> (2000, 1000)"
  by code_simp

text \<open>
  C3.  The planner never scales up: a size inside the box is returned as it is, with
  and without \<^verbatim>\<open>maintainAspectRatio\<close>.
\<close>

theorem plan_never_upscales:
  assumes "w \<le> opt_maxWidth opts" and "h \<le> opt_maxHeight opts"
  shows "plan_dimensions opts w h = (w, h)"
proof -
  have "\<not> (opt_maxWidth opts < w \<or> opt_maxHeight opts < h)" using assms by simp
  moreover have "min w (opt_maxWidth opts) = w" "min h (opt_maxHeight opts) = h" using assms by simp_all
  ultimately show ?thesis by (simp add: plan_dimensions_def Let_def)
qed

theorem plan_never_upscales_witness:
  "plan_dimensions preset_medium 500 500 = (500, 500)
   \<and> plan_dimensions (preset_medium\<lparr>maintainAspectRatio := Some False\<rparr>) 640 800 = (640, 800)"
  using plan_never_upscales [of 500 preset_medium 500]
    plan_never_upscales [of 640 "preset_medium\<lparr>maintainAspectRatio := Some False\<rparr>" 800]
  by (simp add: preset_medium_def opt_maxWidth_def opt_maxHeight_def)

text \<open>
  C4.  The planner has no floor at 1.  An image of 2000 by 1 pixels under the medium
  preset (bounds of 800 by 800, \<^verbatim>\<open>maintainAspectRatio\<close> on) is planned as 800 by
  \<^verbatim>\<open>Math.round(800 / 2000)\<close>, which is 0, and \<^verbatim>\<open>compressImage\<close> goes on with a canvas
  of no pixels: it resolves, as a success, with the data URL \<^verbatim>\<open>data:,\<close> and a
  compressed size of 0.  With \<^verbatim>\<open>maintainAspectRatio\<close> off the same image is planned
  as 800 by 1.
\<close>

theorem plan_height_zero:
  "plan_dimensions preset_medium 2000 1 = (800, 0)
   \<and> \<not> 1 \<le> snd (plan_dimensions preset_medium 2000 1)
   \<and> plan_dimensions (preset_medium\<lparr>maintainAspectRatio := Some False\<rparr>) 2000 1 = (800, 1)
   \<and> compressImage thin_browser ''data:image/png;base64,AAAA'' preset_medium
       = Inr \<lparr>base64 = ''data:,'', width = 800, height = 0, format' = ''image/jpeg'',
              quality' = 7/10, originalSize = 3, compressedSize = 0,
              originalWidth = 2000, originalHeight = 1\<rparr>"
  by code_simp


section \<open>The batch processor\<close>

text \<open>
  C5.  The list returned by \<^verbatim>\<open>processBatchImages\<close> has the length of the input, and
  its entry at an index is decided by the image at that index alone.  When the
  progress callback or \<^verbatim>\<open>compressImage\<close> throws there, the entry has \<^verbatim>\<open>success\<close>
  false, the message of the exception as \<^verbatim>\<open>error\<close> and no file name, data or
  statistics; otherwise it has \<^verbatim>\<open>success\<close> true, no error, the derived file name and
  the data of the result.  A failure therefore never stops the loop.
\<close>

theorem batch_isolates_failures:
  "length (processBatchImages compress opts onProgress images) = length images
   \<and> (\<forall>i < length images.
        processBatchImages compress opts onProgress images ! i
            = (case (case onProgress of None \<Rightarrow> None
                     | Some callback \<Rightarrow> callback (i + 1) (length images)) of
                 Some msg \<Rightarrow>
                   \<lparr>originalName = name (images ! i), fileName = None, dataUrl' = None,
                    originalSize' = None, stats = None, success = False, error = Some msg\<rparr>
               | None \<Rightarrow>
                   (case compress (file_or_dataUrl (images ! i)) opts of
                      Inl msg \<Rightarrow>
                        \<lparr>originalName = name (images ! i), fileName = None, dataUrl' = None,
                         originalSize' = None, stats = None, success = False, error = Some msg\<rparr>
                    | Inr result \<Rightarrow>
                        \<lparr>originalName = name (images ! i),
                         fileName = Some (compressedFileName opts i (name (images ! i))),
                         dataUrl' = Some (base64 result),
                         originalSize' = Some (case size' (images ! i) of
                                                 None \<Rightarrow> originalSize result
                                               | Some s \<Rightarrow> if s = 0 then originalSize result else s),
                         stats = Some result, success = True, error = None\<rparr>)))"
proof -
  have a: "fst (attempt compress opts onProgress len i img)
          = (case (case onProgress of None \<Rightarrow> None | Some callback \<Rightarrow> callback (i + 1) len) of
               Some msg \<Rightarrow>
                 \<lparr>originalName = name img, fileName = None, dataUrl' = None,
                  originalSize' = None, stats = None, success = False, error = Some msg\<rparr>
             | None \<Rightarrow>
                 (case compress (file_or_dataUrl img) opts of
                    Inl msg \<Rightarrow>
                      \<lparr>originalName = name img, fileName = None, dataUrl' = None,
                       originalSize' = None, stats = None, success = False, error = Some msg\<rparr>
                  | Inr result \<Rightarrow>
                      \<lparr>originalName = name img,
                       fileName = Some (compressedFileName opts i (name img)),
                       dataUrl' = Some (base64 result),
                       originalSize' = Some (case size' img of
                                               None \<Rightarrow> originalSize result
                                             | Some s \<Rightarrow> if s = 0 then originalSize result else s),
                       stats = Some result, success = True, error = None\<rparr>))" for len i img
    by (simp add: attempt_def failure_result_def success_result_def split: option.splits sum.splits)
  have n: "processBatchImages compress opts onProgress images ! i
             = fst (attempt compress opts onProgress (length images) i (images ! i))"
    if "i < length images" for i
    using that by (simp add: processBatchImages_map)
  have "length (processBatchImages compress opts onProgress images) = length images"
    by (simp add: processBatchImages_map)
  then show ?thesis using n a by simp
qed

theorem batch_isolates_failures_witness:
  "length (processBatchImages sample_compress preset_medium
      (Some (\<lambda>current total. if current = 1 then Some ''progress failed'' else None))
      [sample_image ''a.png'' ''data:image/png;base64,AAAA'',
       sample_image ''b.png'' ''data:,'',
       sample_image ''c.png'' ''data:image/png;base64,BBBB'']) = 3
   \<and> processBatchImages sample_compress preset_medium
      (Some (\<lambda>current total. if current = 1 then Some ''progress failed'' else None))
      [sample_image ''a.png'' ''data:image/png;base64,AAAA'',
       sample_image ''b.png'' ''data:,'',
       sample_image ''c.png'' ''data:image/png;base64,BBBB''] ! 0
     = \<lparr>originalName = Some ''a.png'', fileName = None, dataUrl' = None, originalSize' = None,
        stats = None, success = False, error = Some ''progress failed''\<rparr>
   \<and> processBatchImages sample_compress preset_medium
      (Some (\<lambda>current total. if current = 1 then Some ''progress failed'' else None))
      [sample_image ''a.png'' ''data:image/png;base64,AAAA'',
       sample_image ''b.png'' ''data:,'',
       sample_image ''c.png'' ''data:image/png;base64,BBBB''] ! 1
     = \<lparr>originalName = Some ''b.png'', fileName = None, dataUrl' = None, originalSize' = None,
        stats = None, success = False, error = Some ''Failed to load image''\<rparr>
   \<and> processBatchImages sample_compress preset_medium
      (Some (\<lambda>current total. if current = 1 then Some ''progress failed'' else None))
      [sample_image ''a.png'' ''data:image/png;base64,AAAA'',
       sample_image ''b.png'' ''data:,'',
       sample_image ''c.png'' ''data:image/png;base64,BBBB''] ! 2
     = \<lparr>originalName = Some ''c.png'', fileName = Some ''c.jpg'',
        dataUrl' = Some ''data:image/png;base64,BBBB'', originalSize' = Some 3,
        stats = Some (sample_result ''data:image/png;base64,BBBB''), success = True, error = None\<rparr>"
proof -
  define images where "images = [sample_image ''a.png'' ''data:image/png;base64,AAAA'',
       sample_image ''b.png'' ''data:,'',
       sample_image ''c.png'' ''data:image/png;base64,BBBB'']"
  define callback :: progress_callback
    where "callback = (\<lambda>current total. if current = 1 then Some ''progress failed'' else None)"
  note t = batch_isolates_failures [of sample_compress preset_medium "Some callback" images]
  have n: "length images = 3" by (simp add: images_def)
  have 0: "images ! 0 = sample_image ''a.png'' ''data:image/png;base64,AAAA''"
    and 1: "images ! 1 = sample_image ''b.png'' ''data:,''"
      "images ! Suc 0 = sample_image ''b.png'' ''data:,''"
    and 2: "images ! 2 = sample_image ''c.png'' ''data:image/png;base64,BBBB''"
    by (simp_all add: images_def)
  have f: "compressedFileName preset_medium 2 (Some ''c.png'') = ''c.jpg''" by code_simp
  have "processBatchImages sample_compress preset_medium (Some callback) images ! 0
     = \<lparr>originalName = Some ''a.png'', fileName = None, dataUrl' = None, originalSize' = None,
        stats = None, success = False, error = Some ''progress failed''\<rparr>"
    using t [THEN conjunct2, rule_format, of 0]
    by (simp add: n 0 callback_def sample_image_def)
  moreover have "processBatchImages sample_compress preset_medium (Some callback) images ! 1
     = \<lparr>originalName = Some ''b.png'', fileName = None, dataUrl' = None, originalSize' = None,
        stats = None, success = False, error = Some ''Failed to load image''\<rparr>"
    using t [THEN conjunct2, rule_format, of 1]
    by (simp add: n 1 callback_def sample_compress_def sample_image_def file_or_dataUrl_def)
  moreover have "processBatchImages sample_compress preset_medium (Some callback) images ! 2
     = \<lparr>originalName = Some ''c.png'', fileName = Some ''c.jpg'',
        dataUrl' = Some ''data:image/png;base64,BBBB'', originalSize' = Some 3,
        stats = Some (sample_result ''data:image/png;base64,BBBB''), success = True, error = None\<rparr>"
    using t [THEN conjunct2, rule_format, of 2] f
    by (simp add: n 2 callback_def sample_compress_def sample_image_def file_or_dataUrl_def
          sample_result_def)
  ultimately show ?thesis
    using t [THEN conjunct1] unfolding images_def[symmetric] callback_def[symmetric]
    by (simp add: n)
qed

text \<open>
  C6.  With a callback, the loop calls \<^verbatim>\<open>onProgress(k + 1, n)\<close> at the start of the turn
  for the image at index \<open>k\<close>, before that image is compressed and before its result
  is pushed; when the callback throws, the image is not compressed and its failure is
  pushed.  The calls are \<open>(1, n), \<dots>, (n, n)\<close> in this order: their first components
  increase strictly, there are \<open>n\<close> of them, each has \<open>n\<close> as second component, and for a
  non-empty batch the last one is \<open>(n, n)\<close>.
\<close>

theorem progress_calls:
  "trace (run_batch compress opts (Some callback) images)
     = concat (map (\<lambda>k. Progress (k + 1) (length images)
                          # (if callback (k + 1) (length images) = None then [Compress k] else [])
                          @ [Push k])
                 [0..<length images])
   \<and> filter is_Progress (trace (run_batch compress opts (Some callback) images))
       = map (\<lambda>k. Progress (k + 1) (length images)) [0..<length images]
   \<and> sorted_wrt (<) (map current (filter is_Progress (trace (run_batch compress opts (Some callback) images))))
   \<and> length (filter is_Progress (trace (run_batch compress opts (Some callback) images))) = length images
   \<and> (\<forall>e \<in> set (filter is_Progress (trace (run_batch compress opts (Some callback) images))).
         total_of e = length images)
   \<and> (images \<noteq> [] \<longrightarrow>
         last (filter is_Progress (trace (run_batch compress opts (Some callback) images)))
           = Progress (length images) (length images))"
proof -
  define n where "n = length images"
  define tr where "tr = trace (run_batch compress opts (Some callback) images)"
  have a: "snd (attempt compress opts (Some callback) n k img) @ [Push k]
         = Progress (k + 1) n # (if callback (k + 1) n = None then [Compress k] else []) @ [Push k]"
    for k img
    by (simp add: attempt_def split: option.splits sum.splits)
  have t: "tr = concat (map (\<lambda>k. Progress (k + 1) n
                          # (if callback (k + 1) n = None then [Compress k] else []) @ [Push k]) [0..<n])"
    unfolding tr_def run_batch_trace n_def[symmetric] a ..
  have "filter is_Progress (concat (map (\<lambda>k. Progress (k + 1) n
                          # (if callback (k + 1) n = None then [Compress k] else []) @ [Push k]) ks))
          = map (\<lambda>k. Progress (k + 1) n) ks" for ks
    by (induction ks) simp_all
  then have f: "filter is_Progress tr = map (\<lambda>k. Progress (k + 1) n) [0..<n]"
    unfolding t .
  have s: "sorted_wrt (<) (map current (filter is_Progress tr))"
    unfolding f by (simp add: sorted_wrt_map o_def sorted_wrt_iff_nth_less)
  have l: "images \<noteq> [] \<longrightarrow> last (filter is_Progress tr) = Progress n n"
  proof
    assume "images \<noteq> []"
    then obtain m where m: "n = Suc m" by (cases n) (simp_all add: n_def)
    show "last (filter is_Progress tr) = Progress n n" unfolding f m by simp
  qed
  show ?thesis
    unfolding tr_def[symmetric] n_def[symmetric] using t f s l by (auto simp add: f)
qed

theorem progress_calls_witness:
  "trace (run_batch sample_compress preset_medium (Some (\<lambda>c t. if c = 2 then Some ''callback failed'' else None))
      [sample_image ''a.png'' ''data:image/png;base64,AAAA'',
       sample_image ''b.png'' ''data:image/png;base64,BBBB'',
       sample_image ''c.png'' ''data:,''])
     = [Progress 1 3, Compress 0, Push 0, Progress 2 3, Push 1, Progress 3 3, Compress 2, Push 2]
   \<and> last (filter is_Progress (trace (run_batch sample_compress preset_medium
        (Some (\<lambda>c t. if c = 2 then Some ''callback failed'' else None))
      [sample_image ''a.png'' ''data:image/png;base64,AAAA'',
       sample_image ''b.png'' ''data:image/png;base64,BBBB'',
       sample_image ''c.png'' ''data:,'']))) = Progress 3 3"
  using progress_calls [of sample_compress preset_medium "\<lambda>c t. if c = 2 then Some ''callback failed'' else None"
      "[sample_image ''a.png'' ''data:image/png;base64,AAAA'',
       sample_image ''b.png'' ''data:image/png;base64,BBBB'',
       sample_image ''c.png'' ''data:,'']"]
  by (simp add: upt_rec)

text \<open>
  The claim as stated fails on the order: the call for an image is made before the
  image is accounted for.  For a batch of one image the call \<open>(1, 1)\<close> is the first
  thing the loop does.
\<close>

theorem progress_before_accounting:
  "trace (run_batch sample_compress preset_medium (Some (\<lambda>c t. None))
      [sample_image ''a.png'' ''data:image/png;base64,AAAA''])
     = [Progress 1 1, Compress 0, Push 0]
   \<and> takeWhile (\<lambda>e. e \<noteq> Progress 1 1)
        (trace (run_batch sample_compress preset_medium (Some (\<lambda>c t. None))
           [sample_image ''a.png'' ''data:image/png;base64,AAAA''])) = []
   \<and> Push 0 \<notin> set (takeWhile (\<lambda>e. e \<noteq> Progress 1 1)
        (trace (run_batch sample_compress preset_medium (Some (\<lambda>c t. None))
           [sample_image ''a.png'' ''data:image/png;base64,AAAA''])))"
  by (simp add: run_batch_def process_image_def attempt_def sample_compress_def sample_image_def
        file_or_dataUrl_def)


section \<open>The archive builder and the encoder\<close>

text \<open>
  C7.  \<^verbatim>\<open>createZipFromImages\<close> has no failure for an empty selection: for a report with
  no successful entry it logs nothing and resolves with an archive of no entries.
  The message about having nothing to download comes from its caller
  \<^verbatim>\<open>handleDownloadZip\<close>, which raises the alert and does not build an archive then.
\<close>

theorem no_success_empty_archive:
  assumes "filter success rs = []"
  shows "createZipFromImages rs zipFileName = ([], Inr [])
       \<and> handleDownloadZip fetch rs now = Alert ''No successfully compressed images to download''"
proof -
  have "\<not> decodable r" if "r \<in> set rs" for r
    using that assms by (auto simp add: decodable_def filter_empty_conv)
  then have "fold add_result rs st = st" for st
    by (induction rs arbitrary: st) (simp_all add: add_result_def)
  then show ?thesis using assms
    by (simp add: createZipFromImages_def handleDownloadZip_def generateAsync_def own_keys_order_def)
qed

theorem no_success_empty_archive_witness:
  "createZipFromImages
     (processBatchImages sample_compress preset_medium None
        [sample_image ''a.png'' ''data:,'', sample_image ''b.png'' ''data:,''])
     ''compressed_images.zip'' = ([], Inr [])
   \<and> handleDownloadZip (\<lambda>url. Inr url)
     (processBatchImages sample_compress preset_medium None
        [sample_image ''a.png'' ''data:,'', sample_image ''b.png'' ''data:,'']) 0
     = Alert ''No successfully compressed images to download''"
proof -
  have "filter success (processBatchImages sample_compress preset_medium None
        [sample_image ''a.png'' ''data:,'', sample_image ''b.png'' ''data:,'']) = []"
    by (simp add: processBatchImages_def run_batch_def process_image_def attempt_def
          sample_compress_def sample_image_def file_or_dataUrl_def failure_result_def)
  then show ?thesis by (rule no_success_empty_archive)
qed

text \<open>
  The claim as stated fails: for a report whose only entry is a failure the promise
  resolves (\<open>Inr\<close>) with the empty archive; no error is raised.
\<close>

theorem empty_archive_returned:
  "filter success [failure_result (sample_image ''a.png'' ''data:,'') ''Failed to load image''] = []
   \<and> snd (createZipFromImages
        [failure_result (sample_image ''a.png'' ''data:,'') ''Failed to load image'']
        ''compressed_images.zip'') = Inr []"
  by (simp add: createZipFromImages_def add_result_def decodable_def failure_result_def
        generateAsync_def own_keys_order_def)

text \<open>
  C8.  \<^verbatim>\<open>createZipFromImages\<close> appends no suffix.  The names in the archive are
  pairwise distinct because \<^verbatim>\<open>zip.file\<close> replaces an entry that is there: of the
  successful, decodable entries of the report that share a file name (not the empty
  one), the archive holds the data of the last one only, under the shared name, and
  every file of the archive is such a last entry under its own name.
\<close>

theorem archive_last_wins:
  "\<exists>z. snd (createZipFromImages rs zipFileName) = Inr z
       \<and> distinct (map fst z)
       \<and> (\<forall>nm bytes. nm \<noteq> [] \<longrightarrow>
            map_of (rev (List.map_filter (\<lambda>r. if decodable r then decode_entry r else None) rs)) nm
              = Some bytes
            \<longrightarrow> map_of z nm = Some (File bytes))
       \<and> (\<forall>nm bytes. map_of z nm = Some (File bytes) \<longrightarrow>
            map_of (rev (List.map_filter (\<lambda>r. if decodable r then decode_entry r else None) rs)) nm
              = Some bytes)"
  using createZipFromImages_entries [of rs zipFileName] by blast

theorem archive_last_wins_witness:
  "snd (createZipFromImages
     (processBatchImages sample_compress preset_medium None
        [sample_image ''a.png'' ''data:image/png;base64,AAAA'',
         sample_image ''d/b.png'' ''data:image/png;base64,QUJD'',
         sample_image ''a.jpeg'' ''data:image/jpeg;base64,BBBB''])
     ''compressed_images.zip'')
   = Inr [(''a.jpg'', File [4, 16, 65]), (''d/'', Folder), (''d/b.jpg'', File [65, 66, 67])]
   \<and> map_of (rev (List.map_filter (\<lambda>r. if decodable r then decode_entry r else None)
        (processBatchImages sample_compress preset_medium None
          [sample_image ''a.png'' ''data:image/png;base64,AAAA'',
           sample_image ''d/b.png'' ''data:image/png;base64,QUJD'',
           sample_image ''a.jpeg'' ''data:image/jpeg;base64,BBBB'']))) ''a.jpg'' = Some [4, 16, 65]
   \<and> map_of [(''a.jpg'', File [4, 16, 65]), (''d/'', Folder), (''d/b.jpg'', File [65, 66, 67])] ''a.jpg''
       = Some (File [4, 16, 65])"
proof -
  define rs where "rs = processBatchImages sample_compress preset_medium None
        [sample_image ''a.png'' ''data:image/png;base64,AAAA'',
         sample_image ''d/b.png'' ''data:image/png;base64,QUJD'',
         sample_image ''a.jpeg'' ''data:image/jpeg;base64,BBBB'']"
  have e: "List.map_filter (\<lambda>r. if decodable r then decode_entry r else None) rs
             = [(''a.jpg'', [0, 0, 0]), (''d/b.jpg'', [65, 66, 67]), (''a.jpg'', [4, 16, 65])]"
    unfolding rs_def by code_simp
  have c: "snd (createZipFromImages rs ''compressed_images.zip'')
             = Inr [(''a.jpg'', File [4, 16, 65]), (''d/'', Folder), (''d/b.jpg'', File [65, 66, 67])]"
    unfolding rs_def by code_simp
  from archive_last_wins [of rs "''compressed_images.zip''"]
  obtain z where z: "snd (createZipFromImages rs ''compressed_images.zip'') = Inr z"
    and l: "\<And>nm bytes. nm \<noteq> [] \<Longrightarrow>
            map_of (rev (List.map_filter (\<lambda>r. if decodable r then decode_entry r else None) rs)) nm
              = Some bytes \<Longrightarrow> map_of z nm = Some (File bytes)"
    by blast
  have m: "map_of (rev (List.map_filter (\<lambda>r. if decodable r then decode_entry r else None) rs)) ''a.jpg''
          = Some [4, 16, 65]"
    by (simp add: e)
  have "z = [(''a.jpg'', File [4, 16, 65]), (''d/'', Folder), (''d/b.jpg'', File [65, 66, 67])]"
    using z c by simp
  moreover have "map_of z ''a.jpg'' = Some (File [4, 16, 65])" using l [OF _ m] by simp
  ultimately have "map_of [(''a.jpg'', File [4, 16, 65]), (''d/'', Folder), (''d/b.jpg'', File [65, 66, 67])]
                     ''a.jpg'' = Some (File [4, 16, 65])"
    by (simp only:)
  then show ?thesis using c m unfolding rs_def by (intro conjI)
qed

text \<open>
  The claim as stated fails: two images \<^verbatim>\<open>a.png\<close> and \<^verbatim>\<open>a.jpeg\<close> converted to JPEG both
  get the name \<^verbatim>\<open>a.jpg\<close>, and the archive holds one entry of that name, with the bytes
  of the second.
\<close>

theorem same_name_overwrites:
  "map fileName (processBatchImages sample_compress preset_medium None
        [sample_image ''a.png'' ''data:image/png;base64,AAAA'',
         sample_image ''a.jpeg'' ''data:image/jpeg;base64,BBBB''])
     = [Some ''a.jpg'', Some ''a.jpg'']
   \<and> map success (processBatchImages sample_compress preset_medium None
        [sample_image ''a.png'' ''data:image/png;base64,AAAA'',
         sample_image ''a.jpeg'' ''data:image/jpeg;base64,BBBB''])
     = [True, True]
   \<and> snd (createZipFromImages
        (processBatchImages sample_compress preset_medium None
           [sample_image ''a.png'' ''data:image/png;base64,AAAA'',
            sample_image ''a.jpeg'' ''data:image/jpeg;base64,BBBB''])
        ''compressed_images.zip'')
     = Inr [(''a.jpg'', File [4, 16, 65])]"
  by code_simp

text \<open>
  C9.  For the format PNG the quality is not given to the encoder: two configurations
  that differ in \<^verbatim>\<open>quality\<close> only give the same outcome but for the field \<^verbatim>\<open>quality\<close>
  that echoes the setting; the data URL, the sizes and the error are the same.
\<close>

theorem png_ignores_quality:
  assumes "opt_format opts = ''image/png''"
  shows "compressImage b url (opts\<lparr>quality := q\<rparr>)
           = map_sum id (\<lambda>r. r\<lparr>quality' := opt_quality (opts\<lparr>quality := q\<rparr>)\<rparr>) (compressImage b url opts)
       \<and> map_sum id base64 (compressImage b url (opts\<lparr>quality := q\<rparr>))
           = map_sum id base64 (compressImage b url opts)"
proof -
  have p: "plan_dimensions (opts\<lparr>quality := q\<rparr>) w h = plan_dimensions opts w h" for w h
  proof -
    have "opt_maxWidth (opts\<lparr>quality := q\<rparr>) = opt_maxWidth opts"
      and "opt_maxHeight (opts\<lparr>quality := q\<rparr>) = opt_maxHeight opts"
      and "opt_maintainAspectRatio (opts\<lparr>quality := q\<rparr>) = opt_maintainAspectRatio opts"
      by (simp_all add: opt_maxWidth_def opt_maxHeight_def opt_maintainAspectRatio_def)
    then show ?thesis unfolding plan_dimensions_def by (simp only:)
  qed
  have f: "opt_format (opts\<lparr>quality := q\<rparr>) = ''image/png''"
    using assms by (simp add: opt_format_def)
  have 1: "compressImage b url (opts\<lparr>quality := q\<rparr>)
           = map_sum id (\<lambda>r. r\<lparr>quality' := opt_quality (opts\<lparr>quality := q\<rparr>)\<rparr>) (compressImage b url opts)"
    using assms by (simp add: compressImage_def Let_def p f split: option.splits sum.splits)
  then have "map_sum id base64 (compressImage b url (opts\<lparr>quality := q\<rparr>))
           = map_sum id base64 (compressImage b url opts)"
    by (cases "compressImage b url opts") simp_all
  then show ?thesis using 1 by simp
qed

theorem png_ignores_quality_witness:
  "map_sum id base64 (compressImage sample_browser ''data:image/jpeg;base64,QUJD''
        (preset_png\<lparr>quality := Some (1/10)\<rparr>))
     = map_sum id base64 (compressImage sample_browser ''data:image/jpeg;base64,QUJD'' preset_png)
   \<and> map_sum id base64 (compressImage sample_browser ''data:image/jpeg;base64,QUJD'' preset_png)
     = Inr ''data:image/png;base64,AAAA''
   \<and> map_sum id base64 (compressImage sample_browser ''data:image/jpeg;base64,QUJD'' preset_webp)
     = Inr ''data:image/webp;base64,BBBB''"
proof -
  have "map_sum id base64 (compressImage sample_browser ''data:image/jpeg;base64,QUJD'' preset_png)
     = Inr ''data:image/png;base64,AAAA''"
    and "map_sum id base64 (compressImage sample_browser ''data:image/jpeg;base64,QUJD'' preset_webp)
     = Inr ''data:image/webp;base64,BBBB''"
    by code_simp+
  moreover have f: "opt_format preset_png = ''image/png''"
    by (simp add: preset_png_def opt_format_def)
  ultimately show ?thesis
    using png_ignores_quality [OF f, of sample_browser "''data:image/jpeg;base64,QUJD''" "Some (1/10)",
        THEN conjunct2]
    by simp
qed



end
